theory Spec2Isabelle
  imports Main
begin

section \<open>The doubly linked list\<close>

text \<open>
  The nodes of all lists live in one store. A node pointer (a \<open>std::shared_ptr\<close> of the
  list and of a node, the raw pointer of an iterator) is a \<open>nat option\<close>: \<open>None\<close> is
  \<open>nullptr\<close>, \<open>Some a\<close> is the address \<open>a\<close>, an index into the store.
  \<open>std::make_shared\<close> puts the new node at the next unused index, so an address is never
  handed out twice; the release of a node whose last \<open>shared_ptr\<close> is dropped is not
  modelled (such a node is no longer reachable from any list).

  Reading or writing through \<open>nullptr\<close> is undefined behaviour in C++; the model returns
  the error \<open>NullDereference\<close> there, and \<open>InvalidPointer\<close> for an address outside the
  store.

  The counter \<open>nodes\<close> is a \<open>std::size_t\<close>. It counts nodes that are alive in the
  address space at the same time, so it stays below the word size and is modelled as a
  natural number.
\<close>

datatype error = NullDereference | InvalidPointer

record 'a doubly_linked_node =
  item :: 'a
  previous :: "nat option"
  "next" :: "nat option"

type_synonym 'a heap = "'a doubly_linked_node list"

record doubly_linked_list =
  front :: "nat option"
  "back" :: "nat option"
  nodes :: nat

definition deref :: "'a heap \<Rightarrow> nat option \<Rightarrow> error + 'a doubly_linked_node" where
  "deref h p =
     (case p of
        None \<Rightarrow> Inl NullDereference
      | Some a \<Rightarrow> if a < length h then Inr (h ! a) else Inl InvalidPointer)"

definition assign ::
  "'a heap \<Rightarrow> nat option \<Rightarrow> ('a doubly_linked_node \<Rightarrow> 'a doubly_linked_node) \<Rightarrow> error + 'a heap"
where
  "assign h p f =
     (case p of
        None \<Rightarrow> Inl NullDereference
      | Some a \<Rightarrow> if a < length h then Inr (h[a := f (h ! a)]) else Inl InvalidPointer)"

text \<open>\<open>std::make_shared< doubly_linked_node >( item )\<close>: the new node and its address.\<close>

definition make_shared :: "'a heap \<Rightarrow> 'a \<Rightarrow> 'a heap \<times> nat" where
  "make_shared h x = (h @ [\<lparr>item = x, previous = None, next = None\<rparr>], length h)"

text \<open>The default constructor.\<close>

definition default_list :: doubly_linked_list where
  "default_list = \<lparr>front = None, back = None, nodes = 0\<rparr>"

definition empty :: "doubly_linked_list \<Rightarrow> bool" where
  "empty l \<longleftrightarrow> front l = None \<and> back l = None \<and> nodes l = 0"

definition size_list :: "doubly_linked_list \<Rightarrow> nat" where
  "size_list l = nodes l"

subsection \<open>Insertion and removal\<close>

definition push_front ::
  "'a \<Rightarrow> 'a heap \<Rightarrow> doubly_linked_list \<Rightarrow> error + 'a heap \<times> doubly_linked_list"
where
  "push_front x h l =
     (case make_shared h x of (h1, newNode) \<Rightarrow>
        if empty l
        then Inr (h1, l\<lparr>back := Some newNode, front := Some newNode, nodes := nodes l + 1\<rparr>)
        else
          (case assign h1 (Some newNode) (\<lambda>n. n\<lparr>next := back l\<rparr>) of
             Inl e \<Rightarrow> Inl e
           | Inr h2 \<Rightarrow>
               (case assign h2 (back l) (\<lambda>n. n\<lparr>previous := Some newNode\<rparr>) of
                  Inl e \<Rightarrow> Inl e
                | Inr h3 \<Rightarrow> Inr (h3, l\<lparr>back := Some newNode, nodes := nodes l + 1\<rparr>))))"

definition push_back ::
  "'a \<Rightarrow> 'a heap \<Rightarrow> doubly_linked_list \<Rightarrow> error + 'a heap \<times> doubly_linked_list"
where
  "push_back x h l =
     (case make_shared h x of (h1, newNode) \<Rightarrow>
        if empty l
        then Inr (h1, l\<lparr>front := Some newNode, back := Some newNode, nodes := nodes l + 1\<rparr>)
        else
          (case assign h1 (Some newNode) (\<lambda>n. n\<lparr>previous := front l\<rparr>) of
             Inl e \<Rightarrow> Inl e
           | Inr h2 \<Rightarrow>
               (case assign h2 (front l) (\<lambda>n. n\<lparr>next := Some newNode\<rparr>) of
                  Inl e \<Rightarrow> Inl e
                | Inr h3 \<Rightarrow> Inr (h3, l\<lparr>front := Some newNode, nodes := nodes l + 1\<rparr>))))"

text \<open>\<open>T()\<close>, the value-initialised item, is the parameter \<open>d\<close> of the pops and peeks.\<close>

text \<open>
  \<open>std::move( this->front->previous )\<close> leaves that link of the removed node null; the
  same holds for \<open>this->back->next\<close> in \<open>pop_back\<close>.
\<close>

definition pop_front ::
  "'a \<Rightarrow> 'a heap \<Rightarrow> doubly_linked_list \<Rightarrow> error + 'a \<times> 'a heap \<times> doubly_linked_list"
where
  "pop_front d h l =
     (if empty l then Inr (d, h, l)
      else
        (case deref h (front l) of
           Inl e \<Rightarrow> Inl e
         | Inr f \<Rightarrow>
             (case assign h (front l) (\<lambda>n. n\<lparr>previous := None\<rparr>) of
                Inl e \<Rightarrow> Inl e
              | Inr h1 \<Rightarrow>
                  (case previous f of
                     Some p \<Rightarrow>
                       (case assign h1 (Some p) (\<lambda>n. n\<lparr>next := None\<rparr>) of
                          Inl e \<Rightarrow> Inl e
                        | Inr h2 \<Rightarrow>
                            Inr (item f, h2, l\<lparr>front := Some p, nodes := nodes l - 1\<rparr>))
                   | None \<Rightarrow>
                       Inr (item f, h1,
                            l\<lparr>front := None, back := None, nodes := nodes l - 1\<rparr>)))))"

definition pop_back ::
  "'a \<Rightarrow> 'a heap \<Rightarrow> doubly_linked_list \<Rightarrow> error + 'a \<times> 'a heap \<times> doubly_linked_list"
where
  "pop_back d h l =
     (if empty l then Inr (d, h, l)
      else
        (case deref h (back l) of
           Inl e \<Rightarrow> Inl e
         | Inr b \<Rightarrow>
             (case assign h (back l) (\<lambda>n. n\<lparr>next := None\<rparr>) of
                Inl e \<Rightarrow> Inl e
              | Inr h1 \<Rightarrow>
                  (case next b of
                     Some p \<Rightarrow>
                       (case assign h1 (Some p) (\<lambda>n. n\<lparr>previous := None\<rparr>) of
                          Inl e \<Rightarrow> Inl e
                        | Inr h2 \<Rightarrow>
                            Inr (item b, h2, l\<lparr>back := Some p, nodes := nodes l - 1\<rparr>))
                   | None \<Rightarrow>
                       Inr (item b, h1,
                            l\<lparr>front := None, back := None, nodes := nodes l - 1\<rparr>)))))"

definition blank_pop_front ::
  "'a heap \<Rightarrow> doubly_linked_list \<Rightarrow> error + 'a heap \<times> doubly_linked_list"
where
  "blank_pop_front h l =
     (if \<not> empty l
      then
        (case deref h (front l) of
           Inl e \<Rightarrow> Inl e
         | Inr f \<Rightarrow>
             (case assign h (front l) (\<lambda>n. n\<lparr>previous := None\<rparr>) of
                Inl e \<Rightarrow> Inl e
              | Inr h1 \<Rightarrow>
                  (case previous f of
                     Some p \<Rightarrow>
                       (case assign h1 (Some p) (\<lambda>n. n\<lparr>next := None\<rparr>) of
                          Inl e \<Rightarrow> Inl e
                        | Inr h2 \<Rightarrow> Inr (h2, l\<lparr>front := Some p, nodes := nodes l - 1\<rparr>))
                   | None \<Rightarrow>
                       Inr (h1, l\<lparr>front := None, back := None, nodes := nodes l - 1\<rparr>))))
      else Inr (h, l))"

text \<open>
  \<open>clear\<close> loops while the list is not empty. On a store whose links form a cycle the loop
  does not end, so it is a partial function: \<open>None\<close> is a run that never returns.
\<close>

partial_function (option) clear ::
  "'a heap \<Rightarrow> doubly_linked_list \<Rightarrow> (error + 'a heap \<times> doubly_linked_list) option"
where
  "clear h l =
     (if \<not> empty l
      then (case blank_pop_front h l of
              Inl e \<Rightarrow> Some (Inl e)
            | Inr (h', l') \<Rightarrow> clear h' l')
      else Some (Inr (h, l)))"

definition peek_front :: "'a \<Rightarrow> 'a heap \<Rightarrow> doubly_linked_list \<Rightarrow> error + 'a" where
  "peek_front d h l =
     (if empty l then Inr d
      else (case deref h (front l) of Inl e \<Rightarrow> Inl e | Inr f \<Rightarrow> Inr (item f)))"

definition peek_back :: "'a \<Rightarrow> 'a heap \<Rightarrow> doubly_linked_list \<Rightarrow> error + 'a" where
  "peek_back d h l =
     (if empty l then Inr d
      else (case deref h (back l) of Inl e \<Rightarrow> Inl e | Inr b \<Rightarrow> Inr (item b)))"

subsection \<open>Copying, moving, swapping and concatenation\<close>

text \<open>
  The loop of the copy constructor and of \<open>operator+=\<close>: while \<open>node\<close> is not null, push
  \<open>node->item\<close> at the back of \<open>*this\<close> and go on with \<open>node->next\<close>, which is read after
  the push. The loop ends only when it meets a null \<open>next\<close> link, so it is a partial
  function: \<open>None\<close> is a run that never returns.
\<close>

partial_function (option) push_back_from ::
  "'a heap \<Rightarrow> doubly_linked_list \<Rightarrow> nat option \<Rightarrow> (error + 'a heap \<times> doubly_linked_list) option"
where
  "push_back_from h l node =
     (if node \<noteq> None
      then
        (case deref h node of
           Inl e \<Rightarrow> Some (Inl e)
         | Inr n \<Rightarrow>
             (case push_back (item n) h l of
                Inl e \<Rightarrow> Some (Inl e)
              | Inr (h', l') \<Rightarrow>
                  (case deref h' node of
                     Inl e \<Rightarrow> Some (Inl e)
                   | Inr n' \<Rightarrow> push_back_from h' l' (next n'))))
      else Some (Inr (h, l)))"

text \<open>The copy constructor builds the new list from \<open>other.back\<close> on.\<close>

definition copy_constructor ::
  "'a heap \<Rightarrow> doubly_linked_list \<Rightarrow> (error + 'a heap \<times> doubly_linked_list) option"
where
  "copy_constructor h other = push_back_from h default_list (back other)"

text \<open>
  The move constructor returns the new list and what it leaves of \<open>other\<close>: both moved-from
  pointers are null and \<open>other.nodes\<close> is set to 0.
\<close>

definition move_constructor :: "doubly_linked_list \<Rightarrow> doubly_linked_list \<times> doubly_linked_list"
where
  "move_constructor other =
     (\<lparr>front = front other, back = back other, nodes = nodes other\<rparr>,
      other\<lparr>front := None, back := None, nodes := 0\<rparr>)"

definition swap ::
  "doubly_linked_list \<Rightarrow> doubly_linked_list \<Rightarrow> doubly_linked_list \<times> doubly_linked_list"
where
  "swap first second =
     (first\<lparr>front := front second, back := back second, nodes := nodes second\<rparr>,
      second\<lparr>front := front first, back := back first, nodes := nodes first\<rparr>)"

text \<open>
  \<open>operator=\<close> has no definition here. Its body is the call \<open>this->swap( *this, rhs )\<close>,
  and the class has no member \<open>swap\<close>: the only \<open>swap\<close> is the friend function above,
  which member lookup does not find. The call is ill-formed as soon as \<open>operator=\<close> is
  instantiated, so no program that compiles runs it.
\<close>

text \<open>
  \<open>operator+=\<close> on \<open>*this = l\<close>. The right operand is a reference: when it is \<open>*this\<close>
  itself, \<open>rhs\<close> is \<open>l\<close>.
\<close>

definition operator_plus_assign ::
  "'a heap \<Rightarrow> doubly_linked_list \<Rightarrow> doubly_linked_list \<Rightarrow>
   (error + 'a heap \<times> doubly_linked_list) option"
where
  "operator_plus_assign h l rhs =
     (if \<not> empty rhs then push_back_from h l (back rhs) else Some (Inr (h, l)))"

text \<open>The member \<open>operator+\<close> is \<open>*this += rhs\<close>.\<close>

definition operator_plus_member ::
  "'a heap \<Rightarrow> doubly_linked_list \<Rightarrow> doubly_linked_list \<Rightarrow>
   (error + 'a heap \<times> doubly_linked_list) option"
where
  "operator_plus_member h l rhs = operator_plus_assign h l rhs"

text \<open>
  The free \<open>operator+\<close> copies \<open>lhs\<close> into \<open>result\<close>, appends \<open>rhs\<close> to it and returns, by
  value, a copy of the reference that \<open>result += rhs\<close> yields.
\<close>

definition operator_plus ::
  "'a heap \<Rightarrow> doubly_linked_list \<Rightarrow> doubly_linked_list \<Rightarrow>
   (error + 'a heap \<times> doubly_linked_list) option"
where
  "operator_plus h lhs rhs =
     (case copy_constructor h lhs of
        None \<Rightarrow> None
      | Some (Inl e) \<Rightarrow> Some (Inl e)
      | Some (Inr (h1, result)) \<Rightarrow>
          (case operator_plus_assign h1 result rhs of
             None \<Rightarrow> None
           | Some (Inl e) \<Rightarrow> Some (Inl e)
           | Some (Inr (h2, result')) \<Rightarrow> copy_constructor h2 result'))"

subsection \<open>Equality of lists\<close>

partial_function (option) equals ::
  "'a heap \<Rightarrow> nat option \<Rightarrow> nat option \<Rightarrow> (error + bool) option"
where
  "equals h node1 node2 =
     (if node1 = None \<and> node2 = None then Some (Inr True)
      else if node1 = None \<or> node2 = None then Some (Inr False)
      else
        (case deref h node1 of
           Inl e \<Rightarrow> Some (Inl e)
         | Inr n1 \<Rightarrow>
             (case deref h node2 of
                Inl e \<Rightarrow> Some (Inl e)
              | Inr n2 \<Rightarrow>
                  if item n1 = item n2 then equals h (next n1) (next n2)
                  else Some (Inr False))))"

definition operator_eq ::
  "'a heap \<Rightarrow> doubly_linked_list \<Rightarrow> doubly_linked_list \<Rightarrow> (error + bool) option"
where
  "operator_eq h l rhs = equals h (back l) (back rhs)"

definition operator_neq ::
  "'a heap \<Rightarrow> doubly_linked_list \<Rightarrow> doubly_linked_list \<Rightarrow> (error + bool) option"
where
  "operator_neq h l rhs = map_option (map_sum id Not) (operator_eq h l rhs)"

subsection \<open>Iterators\<close>

text \<open>
  An iterator holds one raw node pointer. The const and the mutable iterator share every
  function below; the reverse iterator differs in the direction of \<open>++\<close> and \<open>--\<close> only.
\<close>

definition first :: "doubly_linked_list \<Rightarrow> nat option" where
  "first l = back l"

definition last_node :: "doubly_linked_list \<Rightarrow> nat option" where
  "last_node l = front l"

definition next_of :: "'a heap \<Rightarrow> nat option \<Rightarrow> error + nat option" where
  "next_of h current = (case deref h current of Inl e \<Rightarrow> Inl e | Inr n \<Rightarrow> Inr (next n))"

definition previous_of :: "'a heap \<Rightarrow> nat option \<Rightarrow> error + nat option" where
  "previous_of h current =
     (case deref h current of Inl e \<Rightarrow> Inl e | Inr n \<Rightarrow> Inr (previous n))"

definition begin_it :: "'a heap \<Rightarrow> doubly_linked_list \<Rightarrow> error + nat option" where
  "begin_it h l = Inr (first l)"

definition end_it :: "'a heap \<Rightarrow> doubly_linked_list \<Rightarrow> error + nat option" where
  "end_it h l = next_of h (last_node l)"

definition rbegin :: "'a heap \<Rightarrow> doubly_linked_list \<Rightarrow> error + nat option" where
  "rbegin h l = Inr (last_node l)"

definition rend :: "'a heap \<Rightarrow> doubly_linked_list \<Rightarrow> error + nat option" where
  "rend h l = previous_of h (first l)"

text \<open>\<open>operator++\<close> and \<open>operator--\<close> of the forward iterator, and \<open>operator*\<close>.\<close>

definition iterator_incr :: "'a heap \<Rightarrow> nat option \<Rightarrow> error + nat option" where
  "iterator_incr h node = (case deref h node of Inl e \<Rightarrow> Inl e | Inr n \<Rightarrow> Inr (next n))"

definition iterator_decr :: "'a heap \<Rightarrow> nat option \<Rightarrow> error + nat option" where
  "iterator_decr h node =
     (case deref h node of Inl e \<Rightarrow> Inl e | Inr n \<Rightarrow> Inr (previous n))"

definition iterator_deref :: "'a heap \<Rightarrow> nat option \<Rightarrow> error + 'a" where
  "iterator_deref h node = (case deref h node of Inl e \<Rightarrow> Inl e | Inr n \<Rightarrow> Inr (item n))"

text \<open>\<open>operator++\<close> and \<open>operator--\<close> of the reverse iterator.\<close>

definition reverse_iterator_incr :: "'a heap \<Rightarrow> nat option \<Rightarrow> error + nat option" where
  "reverse_iterator_incr h node =
     (case deref h node of Inl e \<Rightarrow> Inl e | Inr n \<Rightarrow> Inr (previous n))"

definition reverse_iterator_decr :: "'a heap \<Rightarrow> nat option \<Rightarrow> error + nat option" where
  "reverse_iterator_decr h node =
     (case deref h node of Inl e \<Rightarrow> Inl e | Inr n \<Rightarrow> Inr (next n))"

text \<open>
  \<open>operator==\<close>, with the same body in \<open>iterator_impl\<close> and \<open>reverse_iterator_impl\<close>:
  \<open>node\<close> is \<open>this->node\<close> and \<open>other\<close> is \<open>it.node\<close>. The last line compares the two
  nodes with the node's \<open>operator==\<close>, that is, their items.
\<close>

definition iterator_eq :: "'a heap \<Rightarrow> nat option \<Rightarrow> nat option \<Rightarrow> error + bool" where
  "iterator_eq h node other =
     (if node = None \<and> other = None then Inr True
      else if other = None then Inr False
      else
        (case deref h node of
           Inl e \<Rightarrow> Inl e
         | Inr n1 \<Rightarrow>
             (case deref h other of
                Inl e \<Rightarrow> Inl e
              | Inr n2 \<Rightarrow> Inr (item n1 = item n2))))"

definition iterator_neq :: "'a heap \<Rightarrow> nat option \<Rightarrow> nat option \<Rightarrow> error + bool" where
  "iterator_neq h node other = map_sum id Not (iterator_eq h node other)"

text \<open>
  Forward iteration as a caller writes it,
  \<open>for ( it = list.begin(); it != list.end(); ++it ) out.push_back( *it )\<close>,
  and its reverse counterpart from \<open>rbegin()\<close> to \<open>rend()\<close>. \<open>iterate\<close> is the loop for an
  iterator \<open>it\<close>, a bound \<open>stop\<close> and the items \<open>out\<close> seen so far; \<open>step\<close> is the
  iterator's \<open>operator++\<close>.
\<close>

partial_function (option) iterate ::
  "('a heap \<Rightarrow> nat option \<Rightarrow> error + nat option) \<Rightarrow> 'a heap \<Rightarrow> nat option \<Rightarrow> nat option \<Rightarrow>
   'a list \<Rightarrow> (error + 'a list) option"
where
  "iterate step h it stop out =
     (case iterator_neq h it stop of
        Inl e \<Rightarrow> Some (Inl e)
      | Inr go_on \<Rightarrow>
          if go_on
          then
            (case iterator_deref h it of
               Inl e \<Rightarrow> Some (Inl e)
             | Inr x \<Rightarrow>
                 (case step h it of
                    Inl e \<Rightarrow> Some (Inl e)
                  | Inr it' \<Rightarrow> iterate step h it' stop (out @ [x])))
          else Some (Inr out))"

definition forward_iteration ::
  "'a heap \<Rightarrow> doubly_linked_list \<Rightarrow> (error + 'a list) option"
where
  "forward_iteration h l =
     (case begin_it h l of
        Inl e \<Rightarrow> Some (Inl e)
      | Inr it \<Rightarrow>
          (case end_it h l of
             Inl e \<Rightarrow> Some (Inl e)
           | Inr stop \<Rightarrow> iterate iterator_incr h it stop []))"

definition reverse_iteration ::
  "'a heap \<Rightarrow> doubly_linked_list \<Rightarrow> (error + 'a list) option"
where
  "reverse_iteration h l =
     (case rbegin h l of
        Inl e \<Rightarrow> Some (Inl e)
      | Inr it \<Rightarrow>
          (case rend h l of
             Inl e \<Rightarrow> Some (Inl e)
           | Inr stop \<Rightarrow> iterate reverse_iterator_incr h it stop []))"

text \<open>Pushing a whole sequence, element by element, as \<open>std::copy\<close> with an inserter does.\<close>

fun push_back_all ::
  "'a list \<Rightarrow> 'a heap \<Rightarrow> doubly_linked_list \<Rightarrow> error + 'a heap \<times> doubly_linked_list"
where
  "push_back_all [] h l = Inr (h, l)"
| "push_back_all (x # xs) h l =
     (case push_back x h l of Inl e \<Rightarrow> Inl e | Inr (h', l') \<Rightarrow> push_back_all xs h' l')"

fun push_front_all ::
  "'a list \<Rightarrow> 'a heap \<Rightarrow> doubly_linked_list \<Rightarrow> error + 'a heap \<times> doubly_linked_list"
where
  "push_front_all [] h l = Inr (h, l)"
| "push_front_all (x # xs) h l =
     (case push_front x h l of Inl e \<Rightarrow> Inl e | Inr (h', l') \<Rightarrow> push_front_all xs h' l')"

text \<open>Popping \<open>n\<close> times and collecting what the pops return, in the order returned.\<close>

fun pop_front_n ::
  "nat \<Rightarrow> 'a \<Rightarrow> 'a heap \<Rightarrow> doubly_linked_list \<Rightarrow> error + 'a list \<times> 'a heap \<times> doubly_linked_list"
where
  "pop_front_n 0 d h l = Inr ([], h, l)"
| "pop_front_n (Suc n) d h l =
     (case pop_front d h l of
        Inl e \<Rightarrow> Inl e
      | Inr (x, h', l') \<Rightarrow>
          (case pop_front_n n d h' l' of
             Inl e \<Rightarrow> Inl e
           | Inr (xs, h'', l'') \<Rightarrow> Inr (x # xs, h'', l'')))"

fun pop_back_n ::
  "nat \<Rightarrow> 'a \<Rightarrow> 'a heap \<Rightarrow> doubly_linked_list \<Rightarrow> error + 'a list \<times> 'a heap \<times> doubly_linked_list"
where
  "pop_back_n 0 d h l = Inr ([], h, l)"
| "pop_back_n (Suc n) d h l =
     (case pop_back d h l of
        Inl e \<Rightarrow> Inl e
      | Inr (x, h', l') \<Rightarrow>
          (case pop_back_n n d h' l' of
             Inl e \<Rightarrow> Inl e
           | Inr (xs, h'', l'') \<Rightarrow> Inr (x # xs, h'', l'')))"

subsection \<open>The representation of a list in the store\<close>

text \<open>
  \<open>path f h p as q\<close>: following the link \<open>f\<close> from the pointer \<open>p\<close> visits exactly the
  addresses \<open>as\<close>, all of them in the store, and ends at the pointer \<open>q\<close>.
\<close>

primrec path ::
  "('a doubly_linked_node \<Rightarrow> nat option) \<Rightarrow> 'a heap \<Rightarrow> nat option \<Rightarrow> nat list \<Rightarrow> nat option \<Rightarrow> bool"
where
  "path f h p [] q \<longleftrightarrow> p = q"
| "path f h p (a # as) q \<longleftrightarrow> p = Some a \<and> a < length h \<and> path f h (f (h ! a)) as q"

text \<open>
  \<open>dll h l as\<close>: the list \<open>l\<close> consists of the nodes at the addresses \<open>as\<close>, in the order of
  forward iteration. The \<open>next\<close> links lead from \<open>back\<close> through \<open>as\<close> to null, the
  \<open>previous\<close> links lead from \<open>front\<close> through \<open>as\<close> backwards to null, no node occurs
  twice and \<open>nodes\<close> is their number.
\<close>

definition dll :: "'a heap \<Rightarrow> doubly_linked_list \<Rightarrow> nat list \<Rightarrow> bool" where
  "dll h l as \<longleftrightarrow>
     path next h (back l) as None \<and> path previous h (front l) (rev as) None \<and>
     distinct as \<and> nodes l = length as"

text \<open>The items held by the nodes \<open>as\<close>.\<close>

definition items :: "'a heap \<Rightarrow> nat list \<Rightarrow> 'a list" where
  "items h as = map (\<lambda>a. item (h ! a)) as"

text \<open>
  The representation invariants as the specification lists them, for a list \<open>l\<close> whose
  nodes in forward order are \<open>as\<close>: the two end pointers are null together and exactly
  when the count is 0, which is when \<open>empty()\<close> holds; \<open>as\<close> is the walk along \<open>next\<close>
  from one end to the other and the count is its length; the \<open>previous\<close> link of a
  node's \<open>next\<close> neighbour and the \<open>next\<close> link of its \<open>previous\<close> neighbour lead back to
  the node; in a list of one element both end pointers are the same node, whose links are
  both null.
\<close>

definition invariants :: "'a heap \<Rightarrow> doubly_linked_list \<Rightarrow> nat list \<Rightarrow> bool" where
  "invariants h l as \<longleftrightarrow>
     (back l = None \<longleftrightarrow> front l = None) \<and> (front l = None \<longleftrightarrow> nodes l = 0) \<and>
     (empty l \<longleftrightarrow> nodes l = 0) \<and>
     path next h (back l) as None \<and> (as \<noteq> [] \<longrightarrow> front l = Some (last as)) \<and>
     nodes l = length as \<and>
     (\<forall>a\<in>set as.
        (case next (h ! a) of None \<Rightarrow> True | Some n \<Rightarrow> previous (h ! n) = Some a) \<and>
        (case previous (h ! a) of None \<Rightarrow> True | Some p \<Rightarrow> next (h ! p) = Some a)) \<and>
     (nodes l = 1 \<longrightarrow>
        front l = back l \<and>
        (case front l of
           None \<Rightarrow> False
         | Some a \<Rightarrow> previous (h ! a) = None \<and> next (h ! a) = None))"

text \<open>A well-formed list: it is represented by \<open>as\<close> and has the invariants above.\<close>

definition well_formed :: "'a heap \<Rightarrow> doubly_linked_list \<Rightarrow> nat list \<Rightarrow> bool" where
  "well_formed h l as \<longleftrightarrow> dll h l as \<and> invariants h l as"

section \<open>Properties\<close>

subsection \<open>Paths and the effect of each operation on a well-formed list\<close>

lemma path_None [simp]: "path f h None as q \<longleftrightarrow> as = [] \<and> q = None"
  by (cases as) auto

lemma path_append:
  "path f h p (as @ bs) q \<longleftrightarrow> (\<exists>r. path f h p as r \<and> path f h r bs q)"
  by (induction as arbitrary: p) auto

lemma path_snoc:
  "path f h p (as @ [b]) q \<longleftrightarrow> path f h p as (Some b) \<and> b < length h \<and> f (h ! b) = q"
  by (auto simp: path_append)

lemma path_frame:
  "path f h p as q \<Longrightarrow> \<forall>a\<in>set as. a < length h \<longrightarrow> a < length h' \<and> f (h' ! a) = f (h ! a)
   \<Longrightarrow> path f h' p as q"
  by (induction as arbitrary: p) auto

lemma path_in_store: "path f h p as q \<Longrightarrow> a \<in> set as \<Longrightarrow> a < length h"
  by (induction as arbitrary: p) auto

lemma dll_Nil: "dll h l [] \<longleftrightarrow> front l = None \<and> back l = None \<and> nodes l = 0"
  by (auto simp: dll_def)

lemma dll_empty: "dll h l as \<Longrightarrow> empty l \<longleftrightarrow> as = []"
  by (cases as) (auto simp: dll_def empty_def)

lemma dll_in_store: "dll h l as \<Longrightarrow> a \<in> set as \<Longrightarrow> a < length h"
  by (auto simp: dll_def dest: path_in_store)

lemma dll_back: "dll h l (a # as) \<Longrightarrow> back l = Some a"
  by (simp add: dll_def)

lemma dll_front: "dll h l (as @ [a]) \<Longrightarrow> front l = Some a"
  by (simp add: dll_def)

lemma push_back_dll:
  assumes "dll h l as"
  shows "\<exists>h' l'. push_back x h l = Inr (h', l') \<and> dll h' l' (as @ [length h]) \<and>
           length h' = Suc (length h) \<and> item (h' ! length h) = x \<and>
           (\<forall>a<length h. item (h' ! a) = item (h ! a)) \<and>
           (\<forall>a<length h. a \<notin> set as \<longrightarrow> h' ! a = h ! a)"
proof (cases as rule: rev_cases)
  case Nil
  with assms show ?thesis
    by (auto simp: push_back_def make_shared_def dll_def empty_def nth_append)
next
  case (snoc bs b)
  with assms have ne: "\<not> empty l" and fr: "front l = Some b" and b: "b < length h"
    and bs: "\<forall>a\<in>set bs. a < length h"
    by (auto simp: dll_empty dll_front dest: dll_in_store)
  from assms snoc have p1: "path next h (back l) bs (Some b)" and p2: "path previous h (previous (h ! b)) (rev bs) None"
    and d: "b \<notin> set bs" "distinct bs" and n: "nodes l = Suc (length bs)"
    by (auto simp: dll_def path_snoc)
  let ?n = "length h"
  let ?h' = "(h @ [\<lparr>item = x, previous = Some b, next = None\<rparr>])[b := (h ! b)\<lparr>next := Some ?n\<rparr>]"
  let ?l' = "l\<lparr>front := Some ?n, nodes := nodes l + 1\<rparr>"
  have eq: "push_back x h l = Inr (?h', ?l')"
    using ne fr b by (simp add: push_back_def make_shared_def assign_def nth_append)
  have nb: "\<forall>a\<in>set bs. a \<noteq> b \<and> a < length h" using d bs by auto
  have q1: "path next ?h' (back l) bs (Some b)"
    by (rule path_frame[OF p1]) (use nb in \<open>auto simp: nth_append\<close>)
  have q2: "path previous ?h' (previous (h ! b)) (rev bs) None"
    by (rule path_frame[OF p2]) (use nb in \<open>auto simp: nth_append\<close>)
  have "dll ?h' ?l' (as @ [length h])"
    using q1 q2 d b n nb snoc by (auto simp: dll_def path_append nth_append)
  moreover have "\<forall>a<length h. item (?h' ! a) = item (h ! a)"
    using b by (auto simp: nth_append nth_list_update)
  moreover have "\<forall>a<length h. a \<notin> set as \<longrightarrow> ?h' ! a = h ! a"
    using snoc by (auto simp: nth_append)
  ultimately show ?thesis using eq b by (auto simp: nth_append)
qed

lemma push_front_dll:
  assumes "dll h l as"
  shows "\<exists>h' l'. push_front x h l = Inr (h', l') \<and> dll h' l' (length h # as) \<and>
           length h' = Suc (length h) \<and> item (h' ! length h) = x \<and>
           (\<forall>a<length h. item (h' ! a) = item (h ! a)) \<and>
           (\<forall>a<length h. a \<notin> set as \<longrightarrow> h' ! a = h ! a)"
proof (cases as)
  case Nil
  with assms show ?thesis
    by (auto simp: push_front_def make_shared_def dll_def empty_def nth_append)
next
  case (Cons b bs)
  with assms have ne: "\<not> empty l" and bk: "back l = Some b" and b: "b < length h"
    and bs: "\<forall>a\<in>set bs. a < length h"
    by (auto simp: dll_empty dll_back dest: dll_in_store)
  from assms Cons have p1: "path next h (next (h ! b)) bs None"
    and p2: "path previous h (front l) (rev bs) (Some b)" and p3: "previous (h ! b) = None"
    and d: "b \<notin> set bs" "distinct bs" and n: "nodes l = Suc (length bs)"
    by (auto simp: dll_def path_append)
  let ?n = "length h"
  let ?h' = "(h @ [\<lparr>item = x, previous = None, next = Some b\<rparr>])[b := (h ! b)\<lparr>previous := Some ?n\<rparr>]"
  let ?l' = "l\<lparr>back := Some ?n, nodes := nodes l + 1\<rparr>"
  have eq: "push_front x h l = Inr (?h', ?l')"
    using ne bk b by (simp add: push_front_def make_shared_def assign_def nth_append)
  have nb: "\<forall>a\<in>set bs. a \<noteq> b \<and> a < length h" using d bs by auto
  have q1: "path next ?h' (next (h ! b)) bs None"
    by (rule path_frame[OF p1]) (use nb in \<open>auto simp: nth_append\<close>)
  have q2: "path previous ?h' (front l) (rev bs) (Some b)"
    by (rule path_frame[OF p2]) (use nb in \<open>auto simp: nth_append\<close>)
  have "dll ?h' ?l' (length h # as)"
    using q1 q2 d b n nb Cons by (auto simp: dll_def path_append nth_append)
  moreover have "\<forall>a<length h. item (?h' ! a) = item (h ! a)"
    using b by (auto simp: nth_append nth_list_update)
  moreover have "\<forall>a<length h. a \<notin> set as \<longrightarrow> ?h' ! a = h ! a"
    using Cons by (auto simp: nth_append)
  ultimately show ?thesis using eq b by (auto simp: nth_append)
qed

lemma pop_front_dll:
  assumes "dll h l (bs @ [b])"
  shows "\<exists>h' l'. pop_front d h l = Inr (item (h ! b), h', l') \<and> dll h' l' bs \<and>
           length h' = length h \<and>
           (\<forall>a<length h. item (h' ! a) = item (h ! a)) \<and>
           (\<forall>a<length h. a \<notin> set (bs @ [b]) \<longrightarrow> h' ! a = h ! a)"
proof -
  from assms have ne: "\<not> empty l" and fr: "front l = Some b" and b: "b < length h"
    and bs: "\<forall>a\<in>set bs. a < length h"
    by (auto simp: dll_empty dll_front dest: dll_in_store)
  from assms have p1: "path next h (back l) bs (Some b)"
    and p2: "path previous h (previous (h ! b)) (rev bs) None"
    and d: "b \<notin> set bs" "distinct bs" and n: "nodes l = Suc (length bs)"
    by (auto simp: dll_def path_append)
  show ?thesis
  proof (cases bs rule: rev_cases)
    case Nil
    with p1 p2 have "back l = Some b" "previous (h ! b) = None" by auto
    with Nil ne fr b n show ?thesis
      by (auto simp: pop_front_def deref_def assign_def dll_def nth_list_update)
  next
    case (snoc cs c)
    with p1 p2 bs have c: "c < length h" and pc: "previous (h ! b) = Some c"
      and r1: "path next h (back l) cs (Some c)"
      and r2: "path previous h (previous (h ! c)) (rev cs) None"
      by (auto simp: path_append)
    let ?h' = "h[b := (h ! b)\<lparr>previous := None\<rparr>, c := (h ! c)\<lparr>next := None\<rparr>]"
    let ?l' = "l\<lparr>front := Some c, nodes := nodes l - 1\<rparr>"
    have cb: "c \<noteq> b" using d snoc by auto
    have eq: "pop_front d h l = Inr (item (h ! b), ?h', ?l')"
      using ne fr b c pc cb by (simp add: pop_front_def deref_def assign_def)
    have nb: "\<forall>a\<in>set cs. a \<noteq> b \<and> a \<noteq> c \<and> a < length h" using d bs snoc by auto
    have q1: "path next ?h' (back l) cs (Some c)"
      by (rule path_frame[OF r1]) (use nb in auto)
    have q2: "path previous ?h' (previous (h ! c)) (rev cs) None"
      by (rule path_frame[OF r2]) (use nb in auto)
    have "dll ?h' ?l' bs"
      using q1 q2 d b c cb n nb snoc by (auto simp: dll_def path_append)
    moreover have "\<forall>a<length h. item (?h' ! a) = item (h ! a)"
      using b c by (auto simp: nth_list_update)
    moreover have "\<forall>a<length h. a \<notin> set (bs @ [b]) \<longrightarrow> ?h' ! a = h ! a"
      using snoc by auto
    ultimately show ?thesis using eq by auto
  qed
qed

lemma pop_back_dll:
  assumes "dll h l (b # bs)"
  shows "\<exists>h' l'. pop_back d h l = Inr (item (h ! b), h', l') \<and> dll h' l' bs \<and>
           length h' = length h \<and>
           (\<forall>a<length h. item (h' ! a) = item (h ! a)) \<and>
           (\<forall>a<length h. a \<notin> set (b # bs) \<longrightarrow> h' ! a = h ! a)"
proof -
  from assms have ne: "\<not> empty l" and bk: "back l = Some b" and b: "b < length h"
    and bs: "\<forall>a\<in>set bs. a < length h"
    by (auto simp: dll_empty dll_back dest: dll_in_store)
  from assms have p1: "path next h (next (h ! b)) bs None"
    and p2: "path previous h (front l) (rev bs) (Some b)"
    and d: "b \<notin> set bs" "distinct bs" and n: "nodes l = Suc (length bs)"
    by (auto simp: dll_def path_append)
  show ?thesis
  proof (cases bs)
    case Nil
    with p1 p2 have "front l = Some b" "next (h ! b) = None" by auto
    with Nil ne bk b n show ?thesis
      by (auto simp: pop_back_def deref_def assign_def dll_def nth_list_update)
  next
    case (Cons c cs)
    with p1 p2 bs have c: "c < length h" and pc: "next (h ! b) = Some c"
      and r1: "path next h (next (h ! c)) cs None"
      and r2: "path previous h (front l) (rev cs) (Some c)"
      by (auto simp: path_append)
    let ?h' = "h[b := (h ! b)\<lparr>next := None\<rparr>, c := (h ! c)\<lparr>previous := None\<rparr>]"
    let ?l' = "l\<lparr>back := Some c, nodes := nodes l - 1\<rparr>"
    have cb: "c \<noteq> b" using d Cons by auto
    have eq: "pop_back d h l = Inr (item (h ! b), ?h', ?l')"
      using ne bk b c pc cb by (simp add: pop_back_def deref_def assign_def)
    have nb: "\<forall>a\<in>set cs. a \<noteq> b \<and> a \<noteq> c \<and> a < length h" using d bs Cons by auto
    have q1: "path next ?h' (next (h ! c)) cs None"
      by (rule path_frame[OF r1]) (use nb in auto)
    have q2: "path previous ?h' (front l) (rev cs) (Some c)"
      by (rule path_frame[OF r2]) (use nb in auto)
    have "dll ?h' ?l' bs"
      using q1 q2 d b c cb n nb Cons by (auto simp: dll_def path_append)
    moreover have "\<forall>a<length h. item (?h' ! a) = item (h ! a)"
      using b c by (auto simp: nth_list_update)
    moreover have "\<forall>a<length h. a \<notin> set (b # bs) \<longrightarrow> ?h' ! a = h ! a"
      using Cons by auto
    ultimately show ?thesis using eq by auto
  qed
qed

subsection \<open>Items, iteration and pushing a sequence\<close>

lemma items_Nil [simp]: "items h [] = []" by (simp add: items_def)
lemma items_Cons [simp]: "items h (a # as) = item (h ! a) # items h as" by (simp add: items_def)
lemma items_append [simp]: "items h (as @ bs) = items h as @ items h bs" by (simp add: items_def)
lemma length_items [simp]: "length (items h as) = length as" by (simp add: items_def)

lemma items_eq_Nil [simp]: "items h as = [] \<longleftrightarrow> as = []" "[] = items h as \<longleftrightarrow> as = []"
  by (auto simp: items_def)

lemma items_frame:
  "\<forall>a\<in>set as. item (h' ! a) = item (h ! a) \<Longrightarrow> items h' as = items h as"
  by (simp add: items_def)

lemma dll_frame:
  assumes "dll h l as" and "length h \<le> length h'" and "\<forall>a\<in>set as. h' ! a = h ! a"
  shows "dll h' l as"
proof -
  have "path f h p as q \<Longrightarrow> path f h' p as q" for f p q
    by (erule path_frame) (use assms in auto)
  moreover have "path f h p (rev as) q \<Longrightarrow> path f h' p (rev as) q" for f p q
    by (erule path_frame) (use assms in auto)
  ultimately show ?thesis using assms(1) by (auto simp: dll_def)
qed

lemma iterate_path:
  "path next h p as None \<Longrightarrow>
   iterate iterator_incr h p None out = Some (Inr (out @ items h as))"
proof (induction as arbitrary: p out)
  case Nil
  then show ?case
    by (subst iterate.simps) (simp add: iterator_neq_def iterator_eq_def)
next
  case (Cons a as)
  then have "iterate iterator_incr h (next (h ! a)) None (out @ [item (h ! a)]) =
             Some (Inr ((out @ [item (h ! a)]) @ items h as))"
    by simp
  with Cons.prems show ?case
    by (subst iterate.simps)
       (simp add: iterator_neq_def iterator_eq_def iterator_deref_def iterator_incr_def deref_def)
qed

lemma iterate_path_rev:
  "path previous h p as None \<Longrightarrow>
   iterate reverse_iterator_incr h p None out = Some (Inr (out @ items h as))"
proof (induction as arbitrary: p out)
  case Nil
  then show ?case
    by (subst iterate.simps) (simp add: iterator_neq_def iterator_eq_def)
next
  case (Cons a as)
  then have "iterate reverse_iterator_incr h (previous (h ! a)) None (out @ [item (h ! a)]) =
             Some (Inr ((out @ [item (h ! a)]) @ items h as))"
    by simp
  with Cons.prems show ?case
    by (subst iterate.simps)
       (simp add: iterator_neq_def iterator_eq_def iterator_deref_def reverse_iterator_incr_def
          deref_def)
qed

lemma end_it_dll: "dll h l as \<Longrightarrow> as \<noteq> [] \<Longrightarrow> end_it h l = Inr None"
  by (cases as rule: rev_cases)
     (auto simp: dll_def path_append end_it_def next_of_def last_node_def deref_def)

lemma rend_dll: "dll h l as \<Longrightarrow> as \<noteq> [] \<Longrightarrow> rend h l = Inr None"
  by (cases as)
     (auto simp: dll_def path_append rend_def previous_of_def first_def deref_def)

lemma end_it_empty: "empty l \<Longrightarrow> end_it h l = Inl NullDereference"
  by (simp add: empty_def end_it_def next_of_def last_node_def deref_def)

lemma rend_empty: "empty l \<Longrightarrow> rend h l = Inl NullDereference"
  by (simp add: empty_def rend_def previous_of_def first_def deref_def)

lemma forward_iteration_dll:
  "forward_iteration h l = Some (if as = [] then Inl NullDereference else Inr (items h as))"
  if "dll h l as"
proof (cases "as = []")
  case True
  with that have "empty l" by (simp add: dll_empty)
  with True show ?thesis
    by (simp add: forward_iteration_def begin_it_def end_it_empty)
next
  case False
  with that have "end_it h l = Inr None" by (simp add: end_it_dll)
  moreover from that have "path next h (back l) as None" by (simp add: dll_def)
  ultimately show ?thesis
    using False by (simp add: forward_iteration_def begin_it_def first_def iterate_path)
qed

lemma items_rev: "items h (rev as) = rev (items h as)"
  by (simp add: items_def rev_map)

lemma reverse_iteration_dll:
  "reverse_iteration h l =
     Some (if as = [] then Inl NullDereference else Inr (rev (items h as)))"
  if "dll h l as"
proof (cases "as = []")
  case True
  with that have "empty l" by (simp add: dll_empty)
  with True show ?thesis
    by (simp add: reverse_iteration_def rbegin_def rend_empty)
next
  case False
  with that have "rend h l = Inr None" by (simp add: rend_dll)
  moreover from that have "path previous h (front l) (rev as) None" by (simp add: dll_def)
  ultimately show ?thesis
    using False
    by (simp add: reverse_iteration_def rbegin_def last_node_def iterate_path_rev items_rev)
qed

lemma push_back_items:
  assumes "dll h l as"
  shows "\<exists>h' l'. push_back x h l = Inr (h', l') \<and> dll h' l' (as @ [length h]) \<and>
           length h' = Suc (length h) \<and> items h' (as @ [length h]) = items h as @ [x] \<and>
           (\<forall>a<length h. item (h' ! a) = item (h ! a)) \<and>
           (\<forall>a<length h. a \<notin> set as \<longrightarrow> h' ! a = h ! a)"
proof -
  from push_back_dll[OF assms, of x] obtain h' l' where
    *: "push_back x h l = Inr (h', l')" "dll h' l' (as @ [length h])"
       "length h' = Suc (length h)" "item (h' ! length h) = x"
       "\<forall>a<length h. item (h' ! a) = item (h ! a)"
       "\<forall>a<length h. a \<notin> set as \<longrightarrow> h' ! a = h ! a"
    by blast
  have "items h' as = items h as"
    by (rule items_frame) (use * dll_in_store[OF assms] in auto)
  with * show ?thesis by simp
qed

lemma push_front_items:
  assumes "dll h l as"
  shows "\<exists>h' l'. push_front x h l = Inr (h', l') \<and> dll h' l' (length h # as) \<and>
           length h' = Suc (length h) \<and> items h' (length h # as) = x # items h as \<and>
           (\<forall>a<length h. item (h' ! a) = item (h ! a)) \<and>
           (\<forall>a<length h. a \<notin> set as \<longrightarrow> h' ! a = h ! a)"
proof -
  from push_front_dll[OF assms, of x] obtain h' l' where
    *: "push_front x h l = Inr (h', l')" "dll h' l' (length h # as)"
       "length h' = Suc (length h)" "item (h' ! length h) = x"
       "\<forall>a<length h. item (h' ! a) = item (h ! a)"
       "\<forall>a<length h. a \<notin> set as \<longrightarrow> h' ! a = h ! a"
    by blast
  have "items h' as = items h as"
    by (rule items_frame) (use * dll_in_store[OF assms] in auto)
  with * show ?thesis by simp
qed

lemma push_back_all_dll:
  "dll h l as \<Longrightarrow>
   \<exists>h' l' bs. push_back_all xs h l = Inr (h', l') \<and> dll h' l' (as @ bs) \<and>
     items h' (as @ bs) = items h as @ xs \<and> length h \<le> length h' \<and>
     (\<forall>a<length h. a \<notin> set as \<longrightarrow> h' ! a = h ! a) \<and> (\<forall>b\<in>set bs. length h \<le> b)"
proof (induction xs arbitrary: h l as)
  case Nil
  then show ?case by (auto intro: exI[of _ "[]"])
next
  case (Cons x xs)
  from push_back_items[OF Cons.prems, of x] obtain h1 l1 where
    1: "push_back x h l = Inr (h1, l1)" "dll h1 l1 (as @ [length h])"
       "items h1 (as @ [length h]) = items h as @ [x]" "length h1 = Suc (length h)"
       "\<forall>a<length h. a \<notin> set as \<longrightarrow> h1 ! a = h ! a"
    by blast
  from Cons.IH[OF 1(2)] obtain h' l' bs where
    2: "push_back_all xs h1 l1 = Inr (h', l')" "dll h' l' ((as @ [length h]) @ bs)"
       "items h' ((as @ [length h]) @ bs) = items h1 (as @ [length h]) @ xs"
       "length h1 \<le> length h'"
       "\<forall>a<length h1. a \<notin> set (as @ [length h]) \<longrightarrow> h' ! a = h1 ! a"
       "\<forall>b\<in>set bs. length h1 \<le> b"
    by blast
  have "\<forall>a<length h. a \<notin> set as \<longrightarrow> h' ! a = h ! a"
    using 1(4,5) 2(5) by auto
  then show ?case
    using 1 2 by (intro exI[of _ h'] exI[of _ l'] exI[of _ "length h # bs"]) auto
qed

lemma push_front_all_dll:
  "dll h l as \<Longrightarrow>
   \<exists>h' l' bs. push_front_all xs h l = Inr (h', l') \<and> dll h' l' (bs @ as) \<and>
     items h' (bs @ as) = rev xs @ items h as \<and> length h \<le> length h' \<and>
     (\<forall>a<length h. a \<notin> set as \<longrightarrow> h' ! a = h ! a) \<and> (\<forall>b\<in>set bs. length h \<le> b)"
proof (induction xs arbitrary: h l as)
  case Nil
  then show ?case by (auto intro: exI[of _ "[]"])
next
  case (Cons x xs)
  from push_front_items[OF Cons.prems, of x] obtain h1 l1 where
    1: "push_front x h l = Inr (h1, l1)" "dll h1 l1 (length h # as)"
       "items h1 (length h # as) = x # items h as" "length h1 = Suc (length h)"
       "\<forall>a<length h. a \<notin> set as \<longrightarrow> h1 ! a = h ! a"
    by blast
  from Cons.IH[OF 1(2)] obtain h' l' bs where
    2: "push_front_all xs h1 l1 = Inr (h', l')" "dll h' l' (bs @ length h # as)"
       "items h' (bs @ length h # as) = rev xs @ items h1 (length h # as)"
       "length h1 \<le> length h'"
       "\<forall>a<length h1. a \<notin> set (length h # as) \<longrightarrow> h' ! a = h1 ! a"
       "\<forall>b\<in>set bs. length h1 \<le> b"
    by blast
  have "\<forall>a<length h. a \<notin> set as \<longrightarrow> h' ! a = h ! a"
    using 1(4,5) 2(5) by auto
  then show ?case
    using 1 2 by (intro exI[of _ h'] exI[of _ l'] exI[of _ "bs @ [length h]"]) auto
qed

lemma dll_default: "dll h default_list []"
  by (simp add: dll_def default_list_def)

subsection \<open>Repeated pops, peeks and the comparison of two lists\<close>

lemma pop_front_n_dll:
  "dll h l as \<Longrightarrow>
   \<exists>h' l'. pop_front_n (length as) d h l = Inr (rev (items h as), h', l') \<and> dll h' l' []"
proof (induction as arbitrary: h l rule: rev_induct)
  case Nil
  then show ?case by simp
next
  case (snoc b bs)
  from pop_front_dll[OF snoc.prems, of d] obtain h1 l1 where
    1: "pop_front d h l = Inr (item (h ! b), h1, l1)" "dll h1 l1 bs"
       "\<forall>a<length h. item (h1 ! a) = item (h ! a)"
    by blast
  have "items h1 bs = items h bs"
    by (rule items_frame) (use 1 dll_in_store[OF snoc.prems] in auto)
  with snoc.IH[OF 1(2)] 1(1) show ?case by auto
qed

lemma pop_back_n_dll:
  "dll h l as \<Longrightarrow>
   \<exists>h' l'. pop_back_n (length as) d h l = Inr (items h as, h', l') \<and> dll h' l' []"
proof (induction as arbitrary: h l)
  case Nil
  then show ?case by simp
next
  case (Cons b bs)
  from pop_back_dll[OF Cons.prems, of d] obtain h1 l1 where
    1: "pop_back d h l = Inr (item (h ! b), h1, l1)" "dll h1 l1 bs"
       "\<forall>a<length h. item (h1 ! a) = item (h ! a)"
    by blast
  have "items h1 bs = items h bs"
    by (rule items_frame) (use 1 dll_in_store[OF Cons.prems] in auto)
  with Cons.IH[OF 1(2)] 1(1) show ?case by auto
qed

lemma peek_front_dll: "dll h l (bs @ [b]) \<Longrightarrow> peek_front d h l = Inr (item (h ! b))"
  by (frule dll_front, frule dll_empty, drule dll_in_store[where a = b])
     (auto simp: peek_front_def deref_def)

lemma peek_back_dll: "dll h l (b # bs) \<Longrightarrow> peek_back d h l = Inr (item (h ! b))"
  by (frule dll_back, frule dll_empty, drule dll_in_store[where a = b])
     (auto simp: peek_back_def deref_def)

lemma equals_path:
  "path next h p as None \<Longrightarrow> path next h q bs None \<Longrightarrow>
   equals h p q = Some (Inr (items h as = items h bs))"
proof (induction as arbitrary: p q bs)
  case Nil
  then show ?case by (cases bs) (auto simp: equals.simps)
next
  case (Cons a as)
  show ?case
  proof (cases bs)
    case Nil
    with Cons.prems show ?thesis by (auto simp: equals.simps)
  next
    case (Cons b bs')
    with Cons.prems Cons.IH[of "next (h ! a)" "next (h ! b)" bs'] show ?thesis
      by (subst equals.simps) (auto simp: deref_def)
  qed
qed

lemma operator_eq_dll:
  "dll h l as \<Longrightarrow> dll h rhs bs \<Longrightarrow>
   operator_eq h l rhs = Some (Inr (items h as = items h bs))"
  by (simp add: operator_eq_def dll_def equals_path)

subsection \<open>The loop of the copy constructor and of concatenation\<close>

lemma push_back_from_dll:
  "dll h l as \<Longrightarrow> path next h p bs None \<Longrightarrow> set as \<inter> set bs = {} \<Longrightarrow>
   \<exists>h' l' cs. push_back_from h l p = Some (Inr (h', l')) \<and> dll h' l' (as @ cs) \<and>
     items h' (as @ cs) = items h as @ items h bs \<and> length h \<le> length h' \<and>
     (\<forall>a<length h. a \<notin> set as \<longrightarrow> h' ! a = h ! a) \<and> (\<forall>c\<in>set cs. length h \<le> c)"
proof (induction bs arbitrary: h l as p)
  case Nil
  then show ?case
    by (subst push_back_from.simps) (auto intro: exI[of _ "[]"])
next
  case (Cons b bs)
  from Cons.prems have p: "p = Some b" and b: "b < length h" "b \<notin> set as"
    and rest: "path next h (next (h ! b)) bs None" and disj: "set as \<inter> set bs = {}"
    by auto
  from push_back_items[OF Cons.prems(1), of "item (h ! b)"] obtain h1 l1 where
    1: "push_back (item (h ! b)) h l = Inr (h1, l1)" "dll h1 l1 (as @ [length h])"
       "items h1 (as @ [length h]) = items h as @ [item (h ! b)]" "length h1 = Suc (length h)"
       "\<forall>a<length h. a \<notin> set as \<longrightarrow> h1 ! a = h ! a"
    by blast
  have bs_in: "\<forall>a\<in>set bs. a < length h"
    using rest by (auto dest: path_in_store)
  have same: "h1 ! b = h ! b" "\<forall>a\<in>set bs. h1 ! a = h ! a"
    using 1(5) b bs_in disj by auto
  have rest1: "path next h1 (next (h ! b)) bs None"
    by (rule path_frame[OF rest]) (use same 1(4) in auto)
  have disj1: "set (as @ [length h]) \<inter> set bs = {}"
    using disj bs_in by auto
  from Cons.IH[OF 1(2) rest1 disj1] obtain h' l' cs where
    2: "push_back_from h1 l1 (next (h ! b)) = Some (Inr (h', l'))"
       "dll h' l' ((as @ [length h]) @ cs)"
       "items h' ((as @ [length h]) @ cs) = items h1 (as @ [length h]) @ items h1 bs"
       "length h1 \<le> length h'"
       "\<forall>a<length h1. a \<notin> set (as @ [length h]) \<longrightarrow> h' ! a = h1 ! a"
       "\<forall>c\<in>set cs. length h1 \<le> c"
    by blast
  have step: "push_back_from h l p = push_back_from h1 l1 (next (h ! b))"
    using p b 1(1,4) same(1) by (subst push_back_from.simps) (simp add: deref_def)
  have "items h1 bs = items h bs"
    by (rule items_frame) (use same in auto)
  moreover have "\<forall>a<length h. a \<notin> set as \<longrightarrow> h' ! a = h ! a"
    using 1(4,5) 2(5) by auto
  ultimately show ?case
    using step 1 2 by (intro exI[of _ h'] exI[of _ l'] exI[of _ "length h # cs"]) auto
qed

lemma path_successor:
  "path f h p as q \<Longrightarrow> a \<in> set as \<Longrightarrow> a \<noteq> last as \<Longrightarrow> \<exists>a'\<in>set as. f (h ! a) = Some a'"
proof (induction as arbitrary: p)
  case Nil
  then show ?case by simp
next
  case (Cons x xs)
  show ?case
  proof (cases xs)
    case Nil
    with Cons.prems show ?thesis by simp
  next
    case (Cons y ys)
    show ?thesis
    proof (cases "a = x")
      case True
      with Cons.prems(1) Cons show ?thesis by auto
    next
      case False
      with Cons.prems Cons have "\<exists>a'\<in>set xs. f (h ! a) = Some a'"
        by (intro Cons.IH[of "f (h ! x)"]) auto
      then show ?thesis by auto
    qed
  qed
qed

lemma push_back_from_inside:
  assumes "push_back_from h l node = Some r"
  shows "\<not> (\<exists>as a. dll h l as \<and> node = Some a \<and> a \<in> set as)"
  using assms
proof (induction rule: push_back_from.raw_induct[rotated, consumes 1, case_names step])
  case (step pbf h l node r)
  show ?case
  proof
    assume "\<exists>as a. dll h l as \<and> node = Some a \<and> a \<in> set as"
    then obtain as a where d: "dll h l as" and node: "node = Some a" and a: "a \<in> set as"
      by blast
    from dll_in_store[OF d a] have lt: "a < length h" .
    from push_back_items[OF d, of "item (h ! a)"] obtain h1 l1 where
      p: "push_back (item (h ! a)) h l = Inr (h1, l1)" "dll h1 l1 (as @ [length h])"
         "length h1 = Suc (length h)"
      by blast
    from p(2) have "path next h1 (back l1) (as @ [length h]) None"
      by (simp add: dll_def)
    from path_successor[OF this, of a] a lt obtain a' where
      a': "a' \<in> set (as @ [length h])" "next (h1 ! a) = Some a'"
      by auto
    from step(2) node lt p a' have "pbf h1 l1 (Some a') = Some r"
      by (simp add: deref_def)
    from step(1)[OF this] p(2) a'(1) show False by blast
  qed
qed

lemma self_append:
  assumes "dll h l as"
  shows "operator_plus_assign h l l = (if as = [] then Some (Inr (h, l)) else None)"
proof (cases as)
  case Nil
  with assms show ?thesis by (simp add: operator_plus_assign_def dll_empty)
next
  case (Cons a as')
  with assms have "back l = Some a" "\<not> empty l" by (auto simp: dll_back dll_empty)
  moreover have "push_back_from h l (Some a) = None"
  proof (cases "push_back_from h l (Some a)")
    case (Some r)
    from push_back_from_inside[OF this] assms Cons show ?thesis by auto
  qed simp
  ultimately show ?thesis using Cons by (simp add: operator_plus_assign_def)
qed

lemma dll_unchanged:
  assumes "dll h l as" and "length h \<le> length h'"
    and "\<forall>x<length h. x \<notin> set cs \<longrightarrow> h' ! x = h ! x" and "set as \<inter> set cs = {}"
  shows "dll h' l as \<and> items h' as = items h as \<and>
         forward_iteration h' l = forward_iteration h l"
proof -
  have same: "\<forall>a\<in>set as. h' ! a = h ! a"
    using assms(3,4) dll_in_store[OF assms(1)] by auto
  then have d: "dll h' l as" using dll_frame[OF assms(1,2)] by simp
  moreover have "items h' as = items h as"
    by (rule items_frame) (use same in auto)
  ultimately show ?thesis
    using forward_iteration_dll[OF d] forward_iteration_dll[OF assms(1)] by simp
qed

lemma copy_constructor_dll:
  assumes "dll h other bs"
  shows "\<exists>h' l' cs. copy_constructor h other = Some (Inr (h', l')) \<and> dll h' l' cs \<and>
           items h' cs = items h bs \<and> length h \<le> length h' \<and>
           (\<forall>a<length h. h' ! a = h ! a) \<and> (\<forall>c\<in>set cs. length h \<le> c)"
proof -
  from assms have "path next h (back other) bs None" by (simp add: dll_def)
  from push_back_from_dll[OF dll_default this, of ] show ?thesis
    by (simp add: copy_constructor_def)
qed

lemma operator_plus_assign_dll:
  assumes "dll h a as" and "dll h b bs" and "set as \<inter> set bs = {}"
  shows "\<exists>h' a' cs. operator_plus_assign h a b = Some (Inr (h', a')) \<and> dll h' a' (as @ cs) \<and>
           items h' (as @ cs) = items h as @ items h bs \<and> length h \<le> length h' \<and>
           (\<forall>x<length h. x \<notin> set as \<longrightarrow> h' ! x = h ! x) \<and> (\<forall>c\<in>set cs. length h \<le> c)"
proof (cases "bs = []")
  case True
  with assms have "empty b" by (simp add: dll_empty)
  with True assms(1) show ?thesis
    by (auto simp: operator_plus_assign_def intro!: exI[of _ "[]"])
next
  case False
  with assms have ne: "\<not> empty b" by (simp add: dll_empty)
  from assms(2) have "path next h (back b) bs None" by (simp add: dll_def)
  from push_back_from_dll[OF assms(1) this assms(3)] ne show ?thesis
    by (simp add: operator_plus_assign_def)
qed

lemma operator_plus_dll:
  assumes "dll h a as" and "dll h b bs"
  shows "\<exists>h' r cs. operator_plus h a b = Some (Inr (h', r)) \<and> dll h' r cs \<and>
           items h' cs = items h as @ items h bs \<and> length h \<le> length h' \<and>
           (\<forall>x<length h. h' ! x = h ! x) \<and> (\<forall>c\<in>set cs. length h \<le> c)"
proof -
  from copy_constructor_dll[OF assms(1)] obtain h1 r1 cs1 where
    1: "copy_constructor h a = Some (Inr (h1, r1))" "dll h1 r1 cs1"
       "items h1 cs1 = items h as" "length h \<le> length h1"
       "\<forall>x<length h. h1 ! x = h ! x" "\<forall>c\<in>set cs1. length h \<le> c"
    by blast
  have disj: "set cs1 \<inter> set bs = {}"
  proof -
    have "x \<notin> set cs1" if "x \<in> set bs" for x
      using 1(6) dll_in_store[OF assms(2) that] by auto
    then show ?thesis by auto
  qed
  have b1: "dll h1 b bs" "items h1 bs = items h bs"
    using dll_unchanged[OF assms(2) 1(4), of "[]"] 1(5) by auto
  from operator_plus_assign_dll[OF 1(2) b1(1) disj] obtain h2 r2 cs2 where
    2: "operator_plus_assign h1 r1 b = Some (Inr (h2, r2))" "dll h2 r2 (cs1 @ cs2)"
       "items h2 (cs1 @ cs2) = items h1 cs1 @ items h1 bs" "length h1 \<le> length h2"
       "\<forall>x<length h1. x \<notin> set cs1 \<longrightarrow> h2 ! x = h1 ! x"
    by blast
  from copy_constructor_dll[OF 2(2)] obtain h3 r3 cs3 where
    3: "copy_constructor h2 r2 = Some (Inr (h3, r3))" "dll h3 r3 cs3"
       "items h3 cs3 = items h2 (cs1 @ cs2)" "length h2 \<le> length h3"
       "\<forall>x<length h2. h3 ! x = h2 ! x" "\<forall>c\<in>set cs3. length h2 \<le> c"
    by blast
  have "h3 ! x = h ! x" if "x < length h" for x
  proof -
    from that 1(6) have "x \<notin> set cs1" by auto
    moreover from that 1(4) 2(4) have "x < length h1" "x < length h2" by auto
    ultimately show ?thesis using 1(5) 2(5) 3(5) that by simp
  qed
  then have "\<forall>x<length h. h3 ! x = h ! x" by simp
  moreover have "length h \<le> c" if "c \<in> set cs3" for c
    using 1(4) 2(4) 3(6) that by force
  then have "\<forall>c\<in>set cs3. length h \<le> c" by simp
  moreover have "operator_plus h a b = Some (Inr (h3, r3))"
    using 1(1) 2(1) 3(1) by (simp add: operator_plus_def)
  moreover have "items h3 cs3 = items h as @ items h bs"
    using 1(3) 2(3) 3(3) b1(2) by simp
  moreover have "length h \<le> length h3"
    using 1(4) 2(4) 3(4) by simp
  ultimately show ?thesis
    using 3(2) by blast
qed

subsection \<open>Clearing\<close>

lemma blank_pop_front_pop_front:
  "blank_pop_front h l =
     (case pop_front d h l of Inl e \<Rightarrow> Inl e | Inr (x, h', l') \<Rightarrow> Inr (h', l'))"
  by (auto simp: blank_pop_front_def pop_front_def split: sum.splits option.splits)

lemma clear_dll:
  "dll h l as \<Longrightarrow>
   \<exists>h' l'. clear h l = Some (Inr (h', l')) \<and> dll h' l' [] \<and> length h' = length h \<and>
     (\<forall>a<length h. a \<notin> set as \<longrightarrow> h' ! a = h ! a)"
proof (induction as arbitrary: h l rule: rev_induct)
  case Nil
  then have "empty l" by (simp add: dll_empty)
  with Nil show ?case by (subst clear.simps) simp
next
  case (snoc b bs)
  then have ne: "\<not> empty l" by (simp add: dll_empty)
  from pop_front_dll[OF snoc.prems, of "item (h ! b)"] obtain h1 l1 where
    1: "pop_front (item (h ! b)) h l = Inr (item (h ! b), h1, l1)" "dll h1 l1 bs"
       "length h1 = length h" "\<forall>a<length h. a \<notin> set (bs @ [b]) \<longrightarrow> h1 ! a = h ! a"
    by blast
  then have "blank_pop_front h l = Inr (h1, l1)"
    by (simp add: blank_pop_front_pop_front[of h l "item (h ! b)"])
  with ne have "clear h l = clear h1 l1"
    by (subst clear.simps) simp
  with snoc.IH[OF 1(2)] 1(3,4) show ?case by auto
qed

subsection \<open>The representation invariants\<close>

lemma path_nth:
  "path f h p as q \<Longrightarrow> i < length as \<Longrightarrow>
   f (h ! (as ! i)) = (if Suc i < length as then Some (as ! Suc i) else q)"
proof (induction as arbitrary: p i)
  case Nil
  then show ?case by simp
next
  case (Cons x xs)
  show ?case
  proof (cases i)
    case 0
    with Cons.prems show ?thesis by (cases xs) auto
  next
    case (Suc j)
    with Cons.prems Cons.IH[of "f (h ! x)" j] show ?thesis by auto
  qed
qed

lemma path_rev_nth:
  assumes "path g h r (rev as) q" and "i < length as"
  shows "g (h ! (as ! i)) = (if i = 0 then q else Some (as ! (i - 1)))"
proof -
  let ?j = "length as - 1 - i"
  from assms(2) have j: "?j < length (rev as)" by simp
  from assms(2) have "rev as ! ?j = as ! i"
    by (simp add: rev_nth)
  moreover have "rev as ! Suc ?j = as ! (i - 1)" if "0 < i"
    using that assms(2) by (simp add: rev_nth Suc_diff_Suc)
  moreover have "Suc ?j < length (rev as) \<longleftrightarrow> 0 < i"
    using assms(2) by auto
  ultimately show ?thesis
    using path_nth[OF assms(1) j] by auto
qed

lemma dll_invariants:
  assumes "dll h l as"
  shows "invariants h l as"
proof -
  from assms have nx: "path next h (back l) as None"
    and pv: "path previous h (front l) (rev as) None" and n: "nodes l = length as"
    by (auto simp: dll_def)
  have ends: "(back l = None \<longleftrightarrow> as = []) \<and> (front l = None \<longleftrightarrow> as = [])"
    using nx pv by (cases as; cases "rev as") auto
  have fr: "front l = Some (last as)" if "as \<noteq> []"
    using that pv by (cases as rule: rev_cases) auto
  have links: "(case next (h ! a) of None \<Rightarrow> True | Some n \<Rightarrow> previous (h ! n) = Some a) \<and>
        (case previous (h ! a) of None \<Rightarrow> True | Some p \<Rightarrow> next (h ! p) = Some a)"
    if "a \<in> set as" for a
  proof -
    from that obtain i where i: "i < length as" "a = as ! i"
      by (auto simp: in_set_conv_nth)
    have "previous (h ! n) = Some a" if "next (h ! a) = Some n" for n
    proof -
      from that path_nth[OF nx i(1)] i(2) have "Suc i < length as" "n = as ! Suc i"
        by (auto split: if_splits)
      with path_rev_nth[OF pv, of "Suc i"] i(2) show ?thesis by simp
    qed
    moreover have "next (h ! p) = Some a" if "previous (h ! a) = Some p" for p
    proof -
      from that path_rev_nth[OF pv i(1)] i(2) have "0 < i" "p = as ! (i - 1)"
        by (auto split: if_splits)
      with path_nth[OF nx, of "i - 1"] i show ?thesis by simp
    qed
    ultimately show ?thesis by (auto split: option.splits)
  qed
  have one: "front l = back l \<and>
        (case front l of None \<Rightarrow> False
         | Some a \<Rightarrow> previous (h ! a) = None \<and> next (h ! a) = None)"
    if "nodes l = 1"
  proof -
    from that n obtain a where "as = [a]" by (cases as) auto
    with nx pv show ?thesis by auto
  qed
  show ?thesis
    unfolding invariants_def
    using nx n ends fr links one by (auto simp: empty_def)
qed

lemma well_formedI: "dll h l as \<Longrightarrow> well_formed h l as"
  by (simp add: well_formed_def dll_invariants)

lemma pop_front_total:
  assumes "dll h l as"
  shows "\<exists>y h' l'. pop_front d h l = Inr (y, h', l') \<and> dll h' l' (butlast as) \<and>
           length h' = length h \<and> (\<forall>a<length h. a \<notin> set as \<longrightarrow> h' ! a = h ! a)"
proof (cases as rule: rev_cases)
  case Nil
  with assms have "empty l" by (simp add: dll_empty)
  with Nil assms show ?thesis by (simp add: pop_front_def)
next
  case (snoc bs b)
  with pop_front_dll[of h l bs b d] assms show ?thesis by auto
qed

lemma pop_back_total:
  assumes "dll h l as"
  shows "\<exists>y h' l'. pop_back d h l = Inr (y, h', l') \<and> dll h' l' (tl as) \<and>
           length h' = length h \<and> (\<forall>a<length h. a \<notin> set as \<longrightarrow> h' ! a = h ! a)"
proof (cases as)
  case Nil
  with assms have "empty l" by (simp add: dll_empty)
  with Nil assms show ?thesis by (simp add: pop_back_def)
next
  case (Cons b bs)
  with pop_back_dll[of h l b bs d] assms show ?thesis by auto
qed

lemma move_constructor_dll:
  assumes "dll h other bs"
  shows "dll h (fst (move_constructor other)) bs \<and> dll h (snd (move_constructor other)) []"
  using assms by (simp add: move_constructor_def dll_def)

lemma swap_dll:
  assumes "dll h l as" and "dll h other bs"
  shows "dll h (fst (swap l other)) bs \<and> dll h (snd (swap l other)) as"
  using assms by (simp add: swap_def dll_def)

subsection \<open>Pops on the empty list\<close>

text \<open>
  Claim C6. On an empty list, \<open>pop_front\<close> and \<open>pop_back\<close> each return the
  default-constructed value \<open>d\<close> and change nothing: the store and the list are returned
  as they were, both end pointers are null, \<open>size()\<close> is 0, \<open>empty()\<close> is true, and no
  error is raised (the result is an \<open>Inr\<close>).
\<close>

theorem pop_on_empty_list:
  assumes "empty l"
  shows "pop_front d h l = Inr (d, h, l) \<and> pop_back d h l = Inr (d, h, l) \<and>
         front l = None \<and> back l = None \<and> size_list l = 0 \<and> empty l"
  using assms by (simp add: pop_front_def pop_back_def empty_def size_list_def)

theorem pop_on_empty_list_witness:
  "empty default_list \<and>
   pop_front (0::int) [] default_list = Inr (0, [], default_list) \<and>
   pop_back (0::int) [] default_list = Inr (0, [], default_list) \<and>
   size_list default_list = 0"
  using pop_on_empty_list [of default_list "0::int" "[]"]
  by (simp add: empty_def default_list_def)

subsection \<open>Which end the pops and peeks work on\<close>

text \<open>
  Claim C1 says that \<open>pop_front\<close> removes the first element of forward iteration and
  \<open>pop_back\<close> the last one. The code does the opposite. \<open>push_front\<close> links the new node
  at the pointer \<open>back\<close>, where forward iteration begins, and \<open>push_back\<close> at the pointer
  \<open>front\<close>; \<open>pop_front\<close> removes the node at \<open>front\<close> and \<open>pop_back\<close> the node at
  \<open>back\<close>. So after \<open>push_back\<close> of 1, 2, 3 the list iterates as \<open>[1, 2, 3]\<close>,
  \<open>pop_front()\<close> returns 3 and leaves \<open>[1, 2]\<close>, and \<open>pop_back()\<close> then returns 1 and
  leaves \<open>[2]\<close>. For every sequence \<open>S\<close> pushed by \<open>push_front\<close> into an empty list,
  popping \<open>length S\<close> times by \<open>pop_back\<close> returns \<open>S\<close> reversed and by \<open>pop_front\<close>
  returns \<open>S\<close> in its original order.
\<close>

theorem pops_take_the_opposite_end:
  "(case push_back_all [1, 2, 3::int] [] default_list of
      Inl e \<Rightarrow> None
    | Inr (h, l) \<Rightarrow>
        (case pop_front 0 h l of
           Inl e \<Rightarrow> None
         | Inr (x, h', l') \<Rightarrow>
             (case pop_back 0 h' l' of
                Inl e \<Rightarrow> None
              | Inr (y, h'', l'') \<Rightarrow>
                  Some (forward_iteration h l, x, forward_iteration h' l', y,
                        forward_iteration h'' l'', size_list l'')))) =
    Some (Some (Inr [1, 2, 3]), 3, Some (Inr [1, 2]), 1, Some (Inr [2]), 1) \<and>
   (\<exists>h l. push_front_all S h0 default_list = Inr (h, l) \<and>
      (\<exists>h' l'. pop_back_n (length S) d h l = Inr (rev S, h', l')) \<and>
      (\<exists>h' l'. pop_front_n (length S) d h l = Inr (S, h', l')))"
proof
  show "(case push_back_all [1, 2, 3::int] [] default_list of
      Inl e \<Rightarrow> None
    | Inr (h, l) \<Rightarrow>
        (case pop_front 0 h l of
           Inl e \<Rightarrow> None
         | Inr (x, h', l') \<Rightarrow>
             (case pop_back 0 h' l' of
                Inl e \<Rightarrow> None
              | Inr (y, h'', l'') \<Rightarrow>
                  Some (forward_iteration h l, x, forward_iteration h' l', y,
                        forward_iteration h'' l'', size_list l'')))) =
    Some (Some (Inr [1, 2, 3]), 3, Some (Inr [1, 2]), 1, Some (Inr [2]), 1)"
    by (simp add: push_back_def pop_front_def pop_back_def make_shared_def assign_def deref_def
          empty_def default_list_def forward_iteration_def begin_it_def end_it_def first_def
          last_node_def next_of_def iterate.simps iterator_neq_def iterator_eq_def
          iterator_deref_def iterator_incr_def size_list_def)
next
  from push_front_all_dll[OF dll_default, of S h0] obtain h l bs where
    1: "push_front_all S h0 default_list = Inr (h, l)" "dll h l bs" "items h bs = rev S"
    by auto
  from 1(3) have len: "length bs = length S"
    by (metis length_items length_rev)
  from pop_back_n_dll[OF 1(2), of d] pop_front_n_dll[OF 1(2), of d] 1 len
  show "\<exists>h l. push_front_all S h0 default_list = Inr (h, l) \<and>
      (\<exists>h' l'. pop_back_n (length S) d h l = Inr (rev S, h', l')) \<and>
      (\<exists>h' l'. pop_front_n (length S) d h l = Inr (S, h', l'))"
    by auto
qed

text \<open>
  Claim C3 says that \<open>peek_front\<close> returns the item at the end that \<open>push_front\<close> affects,
  the first element of forward iteration, and \<open>peek_back\<close> the item at the end that
  \<open>push_back\<close> affects. The code reads the other end: after \<open>push_front\<close> of \<open>y\<close> and then
  of each element of \<open>ys\<close> into an empty list, forward iteration yields the pushed
  elements reversed, \<open>peek_front\<close> returns \<open>y\<close>, the last element of that iteration, and
  \<open>peek_back\<close> returns the element pushed last, which is the first element of the
  iteration. Symmetrically, after \<open>push_back\<close> of the same elements \<open>peek_back\<close> returns
  \<open>y\<close> and \<open>peek_front\<close> the element pushed last. Neither peek changes the store or the
  list: both are functions of them that return only the item.
\<close>

theorem peeks_read_the_opposite_end:
  "(\<exists>h l. push_front_all (y # ys) h0 default_list = Inr (h, l) \<and>
      forward_iteration h l = Some (Inr (rev (y # ys))) \<and>
      peek_front d h l = Inr y \<and> peek_back d h l = Inr (last (y # ys))) \<and>
   (\<exists>h l. push_back_all (y # ys) h0 default_list = Inr (h, l) \<and>
      forward_iteration h l = Some (Inr (y # ys)) \<and>
      peek_back d h l = Inr y \<and> peek_front d h l = Inr (last (y # ys)))"
proof
  from push_front_all_dll[OF dll_default, of "y # ys" h0] obtain h l bs where
    1: "push_front_all (y # ys) h0 default_list = Inr (h, l)" "dll h l bs"
       "items h bs = rev (y # ys)"
    by auto
  from 1(3) have "bs \<noteq> []" by auto
  then obtain c cs where bs: "bs = cs @ [c]" by (cases bs rule: rev_cases) auto
  from \<open>bs \<noteq> []\<close> obtain e es where bs': "bs = e # es" by (cases bs) auto
  from 1(3) bs have "item (h ! c) = y" by simp
  moreover from 1(3) bs' have "item (h ! e) = last (y # ys)"
    by (cases "rev ys") (auto simp: last_rev)
  ultimately have "peek_front d h l = Inr y" "peek_back d h l = Inr (last (y # ys))"
    using peek_front_dll[of h l cs c d] peek_back_dll[of h l e es d] 1(2) bs bs' by auto
  moreover have "forward_iteration h l = Some (Inr (rev (y # ys)))"
    using forward_iteration_dll[OF 1(2)] 1(3) \<open>bs \<noteq> []\<close> by simp
  ultimately show "\<exists>h l. push_front_all (y # ys) h0 default_list = Inr (h, l) \<and>
      forward_iteration h l = Some (Inr (rev (y # ys))) \<and>
      peek_front d h l = Inr y \<and> peek_back d h l = Inr (last (y # ys))"
    using 1(1) by blast
next
  from push_back_all_dll[OF dll_default, of "y # ys" h0] obtain h l bs where
    1: "push_back_all (y # ys) h0 default_list = Inr (h, l)" "dll h l bs"
       "items h bs = y # ys"
    by auto
  from 1(3) have "bs \<noteq> []" by auto
  then obtain c cs where bs: "bs = cs @ [c]" by (cases bs rule: rev_cases) auto
  from \<open>bs \<noteq> []\<close> obtain e es where bs': "bs = e # es" by (cases bs) auto
  from 1(3) bs' have "item (h ! e) = y" by simp
  moreover from 1(3) bs have "item (h ! c) = last (y # ys)"
    by (metis items_Cons items_Nil items_append last_snoc)
  ultimately have "peek_back d h l = Inr y" "peek_front d h l = Inr (last (y # ys))"
    using peek_front_dll[of h l cs c d] peek_back_dll[of h l e es d] 1(2) bs bs' by auto
  moreover have "forward_iteration h l = Some (Inr (y # ys))"
    using forward_iteration_dll[OF 1(2)] 1(3) \<open>bs \<noteq> []\<close> by simp
  ultimately show "\<exists>h l. push_back_all (y # ys) h0 default_list = Inr (h, l) \<and>
      forward_iteration h l = Some (Inr (y # ys)) \<and>
      peek_back d h l = Inr y \<and> peek_front d h l = Inr (last (y # ys))"
    using 1(1) by blast
qed

subsection \<open>Iteration over a pushed sequence, and the iterators of the empty list\<close>

text \<open>
  Claim C2 says that for every sequence \<open>S\<close> pushed into an empty list, iterating from
  \<open>begin()\<close> to \<open>end()\<close> yields \<open>S\<close> after \<open>push_back\<close> and \<open>S\<close> reversed after
  \<open>push_front\<close>. The code does so for every non-empty \<open>S\<close>. For the empty sequence the
  list is empty and \<open>end()\<close> dereferences the null pointer \<open>last()\<close>, so the iteration is
  undefined instead of yielding the empty sequence.
\<close>

theorem push_then_forward_iteration:
  "(\<exists>h l. push_back_all S h0 default_list = Inr (h, l) \<and>
      forward_iteration h l = Some (if S = [] then Inl NullDereference else Inr S)) \<and>
   (\<exists>h l. push_front_all S h0 default_list = Inr (h, l) \<and>
      forward_iteration h l = Some (if S = [] then Inl NullDereference else Inr (rev S)))"
proof
  from push_back_all_dll[OF dll_default, of S h0] obtain h l bs where
    1: "push_back_all S h0 default_list = Inr (h, l)" "dll h l bs" "items h bs = S"
    by auto
  from 1(3) have "bs = [] \<longleftrightarrow> S = []" by auto
  with forward_iteration_dll[OF 1(2)] 1(1,3)
  show "\<exists>h l. push_back_all S h0 default_list = Inr (h, l) \<and>
      forward_iteration h l = Some (if S = [] then Inl NullDereference else Inr S)"
    by auto
next
  from push_front_all_dll[OF dll_default, of S h0] obtain h l bs where
    1: "push_front_all S h0 default_list = Inr (h, l)" "dll h l bs" "items h bs = rev S"
    by auto
  from 1(3) have "bs = [] \<longleftrightarrow> S = []" by auto
  with forward_iteration_dll[OF 1(2)] 1(1,3)
  show "\<exists>h l. push_front_all S h0 default_list = Inr (h, l) \<and>
      forward_iteration h l = Some (if S = [] then Inl NullDereference else Inr (rev S))"
    by auto
qed

text \<open>
  Claim C4 says that \<open>begin()\<close>, \<open>end()\<close>, \<open>rbegin()\<close> and \<open>rend()\<close> never dereference an
  absent node, also on the empty list, where \<open>begin() == end()\<close> and \<open>rbegin() == rend()\<close>
  are to hold. On the empty list \<open>end()\<close> evaluates \<open>next( last() )\<close> and \<open>rend()\<close>
  evaluates \<open>previous( first() )\<close> with a null argument: both dereference the null
  pointer, in every store, and so do the forward and the reverse iteration over the empty
  list.
\<close>

theorem end_and_rend_of_empty_list:
  "begin_it h default_list = Inr None \<and> rbegin h default_list = Inr None \<and>
   end_it h default_list = Inl NullDereference \<and> rend h default_list = Inl NullDereference \<and>
   forward_iteration h default_list = Some (Inl NullDereference) \<and>
   reverse_iteration h default_list = Some (Inl NullDereference)"
  by (simp add: begin_it_def rbegin_def end_it_def rend_def first_def last_node_def next_of_def
        previous_of_def deref_def default_list_def forward_iteration_def reverse_iteration_def)

subsection \<open>Equality of iterators\<close>

text \<open>
  Claim C5 says that two iterators are equal iff both are at the sentinel or both
  reference nodes with equal items, that a sentinel and a non-sentinel iterator are
  unequal in either argument order, and that the comparison never dereferences an absent
  node. \<open>operator==\<close> checks whether both pointers are null and whether the argument's
  pointer is null, not whether \<open>this->node\<close> alone is null: a sentinel compared with an
  iterator at a node dereferences the null pointer. In the other three cases the
  comparison is as the claim says.
\<close>

theorem sentinel_compared_with_node:
  "iterator_eq h None (Some a) = Inl NullDereference \<and>
   iterator_eq h None None = Inr True \<and>
   iterator_eq h (Some a) None = Inr False \<and>
   iterator_eq (h @ [n1, n2]) (Some (length h)) (Some (Suc (length h))) =
     Inr (item n1 = item n2)"
  by (simp add: iterator_eq_def deref_def nth_append)

subsection \<open>Equality of lists\<close>

text \<open>
  Claim C7. For two well-formed lists \<open>a\<close> and \<open>b\<close> of one store, \<open>a == b\<close> returns true
  iff the items of \<open>a\<close> in forward order are the items of \<open>b\<close> in forward order, and
  \<open>a != b\<close> returns the negation; so \<open>a == a\<close> is true, an empty and a non-empty list are
  unequal, and two lists built from the empty list by the same sequence of \<open>push_back\<close>s
  (or of \<open>push_front\<close>s) are equal. \<open>equals\<close> decides it from \<open>back\<close>, where forward
  iteration starts: two null pointers are equal, a null and a non-null pointer are not,
  and two nodes are equal iff their items are and their \<open>next\<close> successors are.
\<close>

theorem operator_eq_same_sequence:
  assumes "dll h a as" and "dll h b bs"
  shows "operator_eq h a b = Some (Inr (items h as = items h bs)) \<and>
         operator_neq h a b = Some (Inr (items h as \<noteq> items h bs)) \<and>
         operator_eq h a a = Some (Inr True) \<and>
         operator_eq h default_list b = Some (Inr (bs = [])) \<and>
         operator_eq h a default_list = Some (Inr (as = [])) \<and>
         (\<exists>h1 l1 h2 l2. push_back_all S h default_list = Inr (h1, l1) \<and>
            push_back_all S h1 default_list = Inr (h2, l2) \<and>
            operator_eq h2 l1 l2 = Some (Inr True)) \<and>
         (\<exists>h1 l1 h2 l2. push_front_all S h default_list = Inr (h1, l1) \<and>
            push_front_all S h1 default_list = Inr (h2, l2) \<and>
            operator_eq h2 l1 l2 = Some (Inr True)) \<and>
         equals h None None = Some (Inr True) \<and>
         equals h None (Some q) = Some (Inr False) \<and>
         equals h (Some p) None = Some (Inr False) \<and>
         (p < length h \<and> q < length h \<longrightarrow>
            equals h (Some p) (Some q) =
              (if item (h ! p) = item (h ! q) then equals h (next (h ! p)) (next (h ! q))
               else Some (Inr False)))"
proof (intro conjI)
  show eq: "operator_eq h a b = Some (Inr (items h as = items h bs))"
    using assms by (rule operator_eq_dll)
  then show "operator_neq h a b = Some (Inr (items h as \<noteq> items h bs))"
    by (simp add: operator_neq_def)
  show "operator_eq h a a = Some (Inr True)"
    using operator_eq_dll[OF assms(1) assms(1)] by simp
  show "operator_eq h default_list b = Some (Inr (bs = []))"
    using operator_eq_dll[OF dll_default assms(2)] by auto
  show "operator_eq h a default_list = Some (Inr (as = []))"
    using operator_eq_dll[OF assms(1) dll_default] by auto
  show "\<exists>h1 l1 h2 l2. push_back_all S h default_list = Inr (h1, l1) \<and>
            push_back_all S h1 default_list = Inr (h2, l2) \<and>
            operator_eq h2 l1 l2 = Some (Inr True)"
  proof -
    from push_back_all_dll[OF dll_default, of S h] obtain h1 l1 cs where
      1: "push_back_all S h default_list = Inr (h1, l1)" "dll h1 l1 cs" "items h1 cs = S"
      by auto
    from push_back_all_dll[OF dll_default, of S h1] obtain h2 l2 ds where
      2: "push_back_all S h1 default_list = Inr (h2, l2)" "dll h2 l2 ds" "items h2 ds = S"
         "length h1 \<le> length h2" "\<forall>a<length h1. h2 ! a = h1 ! a"
      by auto
    have same: "\<forall>a\<in>set cs. h2 ! a = h1 ! a"
      using 2(5) dll_in_store[OF 1(2)] by auto
    then have "dll h2 l1 cs" "items h2 cs = S"
      using dll_frame[OF 1(2) 2(4)] 1(3) items_frame[of cs h2 h1] by auto
    with operator_eq_dll[of h2 l1 cs l2 ds] 2 1 show ?thesis by auto
  qed
  show "\<exists>h1 l1 h2 l2. push_front_all S h default_list = Inr (h1, l1) \<and>
            push_front_all S h1 default_list = Inr (h2, l2) \<and>
            operator_eq h2 l1 l2 = Some (Inr True)"
  proof -
    from push_front_all_dll[OF dll_default, of S h] obtain h1 l1 cs where
      1: "push_front_all S h default_list = Inr (h1, l1)" "dll h1 l1 cs"
         "items h1 cs = rev S"
      by auto
    from push_front_all_dll[OF dll_default, of S h1] obtain h2 l2 ds where
      2: "push_front_all S h1 default_list = Inr (h2, l2)" "dll h2 l2 ds"
         "items h2 ds = rev S"
         "length h1 \<le> length h2" "\<forall>a<length h1. h2 ! a = h1 ! a"
      by auto
    have same: "\<forall>a\<in>set cs. h2 ! a = h1 ! a"
      using 2(5) dll_in_store[OF 1(2)] by auto
    then have "dll h2 l1 cs" "items h2 cs = rev S"
      using dll_frame[OF 1(2) 2(4)] 1(3) items_frame[of cs h2 h1] by auto
    with operator_eq_dll[of h2 l1 cs l2 ds] 2 1 show ?thesis by auto
  qed
  show "equals h None None = Some (Inr True)"
    by (simp add: equals.simps)
  show "equals h None (Some q) = Some (Inr False)"
    by (simp add: equals.simps)
  show "equals h (Some p) None = Some (Inr False)"
    by (simp add: equals.simps)
  show "p < length h \<and> q < length h \<longrightarrow>
            equals h (Some p) (Some q) =
              (if item (h ! p) = item (h ! q) then equals h (next (h ! p)) (next (h ! q))
               else Some (Inr False))"
    by (subst equals.simps) (simp add: deref_def)
qed

theorem operator_eq_same_sequence_witness:
  "dll [\<lparr>item = 1::int, previous = None, next = Some 1\<rparr>,
        \<lparr>item = 2, previous = Some 0, next = None\<rparr>,
        \<lparr>item = 1, previous = None, next = Some 3\<rparr>,
        \<lparr>item = 2, previous = Some 2, next = None\<rparr>]
       \<lparr>front = Some 1, back = Some 0, nodes = 2\<rparr> [0, 1] \<and>
   dll [\<lparr>item = 1::int, previous = None, next = Some 1\<rparr>,
        \<lparr>item = 2, previous = Some 0, next = None\<rparr>,
        \<lparr>item = 1, previous = None, next = Some 3\<rparr>,
        \<lparr>item = 2, previous = Some 2, next = None\<rparr>]
       \<lparr>front = Some 3, back = Some 2, nodes = 2\<rparr> [2, 3] \<and>
   operator_eq [\<lparr>item = 1::int, previous = None, next = Some 1\<rparr>,
        \<lparr>item = 2, previous = Some 0, next = None\<rparr>,
        \<lparr>item = 1, previous = None, next = Some 3\<rparr>,
        \<lparr>item = 2, previous = Some 2, next = None\<rparr>]
       \<lparr>front = Some 1, back = Some 0, nodes = 2\<rparr>
       \<lparr>front = Some 3, back = Some 2, nodes = 2\<rparr> = Some (Inr True) \<and>
   equals [\<lparr>item = 1::int, previous = None, next = Some 1\<rparr>,
        \<lparr>item = 2, previous = Some 0, next = None\<rparr>,
        \<lparr>item = 1, previous = None, next = Some 3\<rparr>,
        \<lparr>item = 2, previous = Some 2, next = None\<rparr>] (Some 0) (Some 2) =
   equals [\<lparr>item = 1::int, previous = None, next = Some 1\<rparr>,
        \<lparr>item = 2, previous = Some 0, next = None\<rparr>,
        \<lparr>item = 1, previous = None, next = Some 3\<rparr>,
        \<lparr>item = 2, previous = Some 2, next = None\<rparr>] (Some 1) (Some 3)"
  using operator_eq_same_sequence
    [where h = "[\<lparr>item = 1::int, previous = None, next = Some 1\<rparr>,
          \<lparr>item = 2, previous = Some 0, next = None\<rparr>,
          \<lparr>item = 1, previous = None, next = Some 3\<rparr>,
          \<lparr>item = 2, previous = Some 2, next = None\<rparr>]"
        and a = "\<lparr>front = Some 1, back = Some 0, nodes = 2\<rparr>" and as = "[0, 1]"
        and b = "\<lparr>front = Some 3, back = Some 2, nodes = 2\<rparr>" and bs = "[2, 3]"
        and p = 0 and q = 2]
  by (simp add: dll_def)

subsection \<open>Appending a list to itself\<close>

text \<open>
  Claim C10 says that for a non-empty list \<open>A\<close> the self-append \<open>A += A\<close> terminates and
  leaves \<open>A\<close> holding its former items twice. In the code the loop of \<open>operator+=\<close> walks
  the \<open>next\<close> links of the very chain that each \<open>push_back\<close> extends by one node: the
  node under \<open>node\<close> always has a successor when \<open>node->next\<close> is read, so the loop
  never meets a null pointer and never returns, for every well-formed non-empty list.
\<close>

theorem self_append_never_returns:
  assumes "dll h l as" and "as \<noteq> []"
  shows "operator_plus_assign h l l = None"
  using self_append[OF assms(1)] assms(2) by simp

theorem self_append_never_returns_witness:
  "dll [\<lparr>item = 1::int, previous = None, next = None\<rparr>]
       \<lparr>front = Some 0, back = Some 0, nodes = 1\<rparr> [0] \<and>
   [0::nat] \<noteq> [] \<and>
   operator_plus_assign [\<lparr>item = 1::int, previous = None, next = None\<rparr>]
     \<lparr>front = Some 0, back = Some 0, nodes = 1\<rparr>
     \<lparr>front = Some 0, back = Some 0, nodes = 1\<rparr> = None"
  using self_append_never_returns
    [of "[\<lparr>item = 1::int, previous = None, next = None\<rparr>]"
        "\<lparr>front = Some 0, back = Some 0, nodes = 1\<rparr>" "[0]"]
  by (simp add: dll_def)

subsection \<open>Concatenation\<close>

text \<open>
  Claim C8 says that for all lists \<open>A\<close> and \<open>B\<close> that are not aliased, forward iteration
  over \<open>A + B\<close> yields the items of \<open>A\<close> followed by the items of \<open>B\<close>, that \<open>A += B\<close>
  appends a copy of every item of \<open>B\<close> to \<open>A\<close>, and that \<open>B\<close> is not mutated. For
  well-formed lists \<open>a\<close> and \<open>b\<close> of one store that share no node, the code does the
  following. \<open>a += b\<close>, and the member \<open>operator+\<close>, which is the same call, return;
  afterwards \<open>a\<close> consists of its former nodes, with their items, followed by new nodes
  \<open>cs\<close> that hold the items of \<open>b\<close> in \<open>b\<close>'s forward order. The free \<open>operator+\<close>
  returns a new list whose nodes hold the items of \<open>a\<close> followed by those of \<open>b\<close>, and
  leaves \<open>a\<close> as it was. In all three cases \<open>b\<close> is not mutated: it is still represented
  by the nodes \<open>bs\<close>, they hold the same items, and iterating over \<open>b\<close> gives what it gave
  before. The loop from \<open>begin()\<close> to \<open>end()\<close> over the result yields the items of \<open>a\<close>
  followed by those of \<open>b\<close> unless both lists are empty: then the result is empty,
  \<open>end()\<close> dereferences the null pointer \<open>last()\<close>, and the iteration is undefined instead
  of yielding the empty sequence.
\<close>

theorem concatenation:
  assumes "dll h a as" and "dll h b bs" and "set as \<inter> set bs = {}"
  shows "(\<exists>h' a' cs. operator_plus_assign h a b = Some (Inr (h', a')) \<and>
            operator_plus_member h a b = Some (Inr (h', a')) \<and>
            dll h' a' (as @ cs) \<and> items h' as = items h as \<and> items h' cs = items h bs \<and>
            forward_iteration h' a' =
              Some (if as @ bs = [] then Inl NullDereference
                    else Inr (items h as @ items h bs)) \<and>
            dll h' b bs \<and> items h' bs = items h bs \<and>
            forward_iteration h' b = forward_iteration h b) \<and>
         (\<exists>h' r cs. operator_plus h a b = Some (Inr (h', r)) \<and>
            dll h' r cs \<and> items h' cs = items h as @ items h bs \<and>
            forward_iteration h' r =
              Some (if as @ bs = [] then Inl NullDereference
                    else Inr (items h as @ items h bs)) \<and>
            dll h' b bs \<and> items h' bs = items h bs \<and>
            forward_iteration h' b = forward_iteration h b \<and>
            dll h' a as \<and> items h' as = items h as)"
proof
  from operator_plus_assign_dll[OF assms] obtain h' a' cs where
    1: "operator_plus_assign h a b = Some (Inr (h', a'))" "dll h' a' (as @ cs)"
       "items h' (as @ cs) = items h as @ items h bs" "length h \<le> length h'"
       "\<forall>x<length h. x \<notin> set as \<longrightarrow> h' ! x = h ! x"
    by blast
  have b: "dll h' b bs \<and> items h' bs = items h bs \<and>
           forward_iteration h' b = forward_iteration h b"
    using dll_unchanged[OF assms(2) 1(4,5)] assms(3) by auto
  from 1(3) have "length (items h' as @ items h' cs) = length (items h as @ items h bs)"
    by simp
  with 1(3) have split: "items h' as = items h as" "items h' cs = items h bs"
    by auto
  from split(2) have "cs = [] \<longleftrightarrow> bs = []"
    by (metis items_eq_Nil(1))
  then have "as @ cs = [] \<longleftrightarrow> as @ bs = []" by simp
  with forward_iteration_dll[OF 1(2)] 1(3)
  have it: "forward_iteration h' a' =
      Some (if as @ bs = [] then Inl NullDereference else Inr (items h as @ items h bs))"
    by simp
  have m: "operator_plus_member h a b = Some (Inr (h', a'))"
    using 1(1) by (simp add: operator_plus_member_def)
  from 1(1) m 1(2) split it b
  show "\<exists>h' a' cs. operator_plus_assign h a b = Some (Inr (h', a')) \<and>
            operator_plus_member h a b = Some (Inr (h', a')) \<and>
            dll h' a' (as @ cs) \<and> items h' as = items h as \<and> items h' cs = items h bs \<and>
            forward_iteration h' a' =
              Some (if as @ bs = [] then Inl NullDereference
                    else Inr (items h as @ items h bs)) \<and>
            dll h' b bs \<and> items h' bs = items h bs \<and>
            forward_iteration h' b = forward_iteration h b"
    by blast
next
  from operator_plus_dll[OF assms(1,2)] obtain h' r cs where
    1: "operator_plus h a b = Some (Inr (h', r))" "dll h' r cs"
       "items h' cs = items h as @ items h bs" "length h \<le> length h'"
       "\<forall>x<length h. h' ! x = h ! x"
    by blast
  have b: "dll h' b bs \<and> items h' bs = items h bs \<and>
           forward_iteration h' b = forward_iteration h b"
    using dll_unchanged[OF assms(2) 1(4), of "[]"] 1(5) by simp
  have a: "dll h' a as \<and> items h' as = items h as"
    using dll_unchanged[OF assms(1) 1(4), of "[]"] 1(5) by simp
  from 1(3) have "cs = [] \<longleftrightarrow> as @ bs = []"
    by (metis append_is_Nil_conv items_eq_Nil(1))
  with forward_iteration_dll[OF 1(2)] 1(3)
  have it: "forward_iteration h' r =
      Some (if as @ bs = [] then Inl NullDereference else Inr (items h as @ items h bs))"
    by simp
  from 1(1,2,3) it a b
  show "\<exists>h' r cs. operator_plus h a b = Some (Inr (h', r)) \<and>
            dll h' r cs \<and> items h' cs = items h as @ items h bs \<and>
            forward_iteration h' r =
              Some (if as @ bs = [] then Inl NullDereference
                    else Inr (items h as @ items h bs)) \<and>
            dll h' b bs \<and> items h' bs = items h bs \<and>
            forward_iteration h' b = forward_iteration h b \<and>
            dll h' a as \<and> items h' as = items h as"
    by blast
qed

theorem concatenation_witness:
  "dll [\<lparr>item = 1::int, previous = None, next = Some 1\<rparr>,
        \<lparr>item = 2, previous = Some 0, next = None\<rparr>,
        \<lparr>item = 3, previous = None, next = Some 3\<rparr>,
        \<lparr>item = 4, previous = Some 2, next = None\<rparr>]
       \<lparr>front = Some 1, back = Some 0, nodes = 2\<rparr> [0, 1] \<and>
   dll [\<lparr>item = 1::int, previous = None, next = Some 1\<rparr>,
        \<lparr>item = 2, previous = Some 0, next = None\<rparr>,
        \<lparr>item = 3, previous = None, next = Some 3\<rparr>,
        \<lparr>item = 4, previous = Some 2, next = None\<rparr>]
       \<lparr>front = Some 3, back = Some 2, nodes = 2\<rparr> [2, 3] \<and>
   set [0, 1::nat] \<inter> set [2, 3] = {} \<and>
   (\<exists>h' r. operator_plus
        [\<lparr>item = 1::int, previous = None, next = Some 1\<rparr>,
         \<lparr>item = 2, previous = Some 0, next = None\<rparr>,
         \<lparr>item = 3, previous = None, next = Some 3\<rparr>,
         \<lparr>item = 4, previous = Some 2, next = None\<rparr>]
        \<lparr>front = Some 1, back = Some 0, nodes = 2\<rparr>
        \<lparr>front = Some 3, back = Some 2, nodes = 2\<rparr> = Some (Inr (h', r)) \<and>
      forward_iteration h' r = Some (Inr [1, 2, 3, 4]) \<and>
      forward_iteration h' \<lparr>front = Some 3, back = Some 2, nodes = 2\<rparr> = Some (Inr [3, 4])) \<and>
   dll ([] :: int heap) default_list [] \<and> set ([] :: nat list) \<inter> set [] = {} \<and>
   (\<exists>h' r. operator_plus ([] :: int heap) default_list default_list = Some (Inr (h', r)) \<and>
      forward_iteration h' r = Some (Inl NullDereference)) \<and>
   (\<exists>h' a'. operator_plus_assign ([] :: int heap) default_list default_list =
        Some (Inr (h', a')) \<and>
      forward_iteration h' a' = Some (Inl NullDereference))"
proof -
  let ?h = "[\<lparr>item = 1::int, previous = None, next = Some 1\<rparr>,
        \<lparr>item = 2, previous = Some 0, next = None\<rparr>,
        \<lparr>item = 3, previous = None, next = Some 3\<rparr>,
        \<lparr>item = 4, previous = Some 2, next = None\<rparr>]"
  let ?a = "\<lparr>front = Some 1, back = Some 0, nodes = 2\<rparr>"
  let ?b = "\<lparr>front = Some 3, back = Some 2, nodes = 2\<rparr>"
  have a: "dll ?h ?a [0, 1]" by (simp add: dll_def)
  have b: "dll ?h ?b [2, 3]" by (simp add: dll_def)
  have d: "set [0, 1::nat] \<inter> set [2, 3] = {}" by simp
  have fb: "forward_iteration ?h ?b = Some (Inr [3, 4])"
    using forward_iteration_dll[OF b] by simp
  from concatenation[OF a b d] obtain h' r where
    "operator_plus ?h ?a ?b = Some (Inr (h', r))"
    "forward_iteration h' r = Some (Inr (items ?h [0, 1] @ items ?h [2, 3]))"
    "forward_iteration h' ?b = forward_iteration ?h ?b"
    by auto
  with fb have full: "\<exists>h' r. operator_plus ?h ?a ?b = Some (Inr (h', r)) \<and>
      forward_iteration h' r = Some (Inr [1, 2, 3, 4]) \<and>
      forward_iteration h' ?b = Some (Inr [3, 4])"
    by simp
  have e: "dll ([] :: int heap) default_list []" by (rule dll_default)
  have de: "set ([] :: nat list) \<inter> set [] = {}" by simp
  from concatenation[OF e e de]
  have none: "\<exists>h' r. operator_plus ([] :: int heap) default_list default_list =
        Some (Inr (h', r)) \<and>
      forward_iteration h' r = Some (Inl NullDereference)"
    and none': "\<exists>h' a'. operator_plus_assign ([] :: int heap) default_list default_list =
        Some (Inr (h', a')) \<and>
      forward_iteration h' a' = Some (Inl NullDereference)"
    by auto
  from a b d full e de none none' show ?thesis by blast
qed

subsection \<open>Every operation preserves the representation invariants\<close>

text \<open>
  Claim C9 says that every public operation, among them copy and move assignment,
  preserves the representation invariants. \<open>operator=\<close> is the one operation of which
  this cannot hold: its body calls the member \<open>this->swap\<close>, which the class does not
  have, so a program that assigns a list does not compile. For every other public
  operation the claim holds. Let \<open>l\<close> and \<open>other\<close> be well-formed lists of one store that
  share no node. Then \<open>l\<close> has the representation invariants, and so has the
  default-constructed list. Each of \<open>push_front\<close>, \<open>push_back\<close>, \<open>pop_front\<close>,
  \<open>pop_back\<close> and \<open>clear\<close> on \<open>l\<close>, the copy and the move constructor from \<open>other\<close>,
  the friend \<open>swap\<close>, \<open>l += other\<close>, the member \<open>l + other\<close> and the free \<open>operator+\<close>
  returns without error, and every list involved is well-formed afterwards: the list
  operated on, the list produced, and \<open>other\<close>. The aliased \<open>l += l\<close> returns the store and
  the list as they were when \<open>l\<close> is empty and does not return otherwise.
\<close>

theorem operations_preserve_invariants:
  assumes "dll h l as" and "dll h other bs" and "set as \<inter> set bs = {}"
  shows "well_formed h l as \<and> well_formed h default_list [] \<and>
    (\<exists>h' l'. push_front x h l = Inr (h', l') \<and> well_formed h' l' (length h # as) \<and>
       well_formed h' other bs) \<and>
    (\<exists>h' l'. push_back x h l = Inr (h', l') \<and> well_formed h' l' (as @ [length h]) \<and>
       well_formed h' other bs) \<and>
    (\<exists>y h' l'. pop_front d h l = Inr (y, h', l') \<and> well_formed h' l' (butlast as) \<and>
       well_formed h' other bs) \<and>
    (\<exists>y h' l'. pop_back d h l = Inr (y, h', l') \<and> well_formed h' l' (tl as) \<and>
       well_formed h' other bs) \<and>
    (\<exists>h' l'. clear h l = Some (Inr (h', l')) \<and> well_formed h' l' [] \<and> empty l' \<and>
       well_formed h' other bs) \<and>
    (\<exists>h' l' cs. copy_constructor h other = Some (Inr (h', l')) \<and> well_formed h' l' cs \<and>
       well_formed h' other bs) \<and>
    well_formed h (fst (move_constructor other)) bs \<and>
    well_formed h (snd (move_constructor other)) [] \<and>
    well_formed h (fst (swap l other)) bs \<and> well_formed h (snd (swap l other)) as \<and>
    (\<exists>h' l' cs. operator_plus_assign h l other = Some (Inr (h', l')) \<and>
       operator_plus_member h l other = Some (Inr (h', l')) \<and> well_formed h' l' cs \<and>
       well_formed h' other bs) \<and>
    (\<exists>h' r cs. operator_plus h l other = Some (Inr (h', r)) \<and> well_formed h' r cs \<and>
       well_formed h' l as \<and> well_formed h' other bs) \<and>
    operator_plus_assign h l l = (if as = [] then Some (Inr (h, l)) else None)"
proof (intro conjI)
  note disj = assms(3)
  have other: "well_formed h' other bs"
    if "length h \<le> length h'" "\<forall>a<length h. a \<notin> set as \<longrightarrow> h' ! a = h ! a" for h'
    using dll_unchanged[OF assms(2) that] disj by (auto intro: well_formedI)
  have other': "well_formed h' other bs"
    if "length h \<le> length h'" "\<forall>a<length h. h' ! a = h ! a" for h'
    using dll_unchanged[OF assms(2) that(1), of "[]"] that(2) by (auto intro: well_formedI)
  have this': "well_formed h' l as"
    if "length h \<le> length h'" "\<forall>a<length h. h' ! a = h ! a" for h'
    using dll_unchanged[OF assms(1) that(1), of "[]"] that(2) by (auto intro: well_formedI)
  show "well_formed h l as" using assms(1) by (rule well_formedI)
  show "well_formed h default_list []" using dll_default by (rule well_formedI)
  show "\<exists>h' l'. push_front x h l = Inr (h', l') \<and> well_formed h' l' (length h # as) \<and>
       well_formed h' other bs"
    using push_front_dll[OF assms(1), of x] other by (fastforce intro: well_formedI)
  show "\<exists>h' l'. push_back x h l = Inr (h', l') \<and> well_formed h' l' (as @ [length h]) \<and>
       well_formed h' other bs"
    using push_back_dll[OF assms(1), of x] other by (fastforce intro: well_formedI)
  show "\<exists>y h' l'. pop_front d h l = Inr (y, h', l') \<and> well_formed h' l' (butlast as) \<and>
       well_formed h' other bs"
    using pop_front_total[OF assms(1), of d] other by (fastforce intro: well_formedI)
  show "\<exists>y h' l'. pop_back d h l = Inr (y, h', l') \<and> well_formed h' l' (tl as) \<and>
       well_formed h' other bs"
    using pop_back_total[OF assms(1), of d] other by (fastforce intro: well_formedI)
  show "\<exists>h' l'. clear h l = Some (Inr (h', l')) \<and> well_formed h' l' [] \<and> empty l' \<and>
       well_formed h' other bs"
  proof -
    from clear_dll[OF assms(1)] obtain h' l' where
      1: "clear h l = Some (Inr (h', l'))" "dll h' l' []" "length h' = length h"
         "\<forall>a<length h. a \<notin> set as \<longrightarrow> h' ! a = h ! a"
      by blast
    from 1(2) have "empty l'" by (simp add: dll_empty)
    with 1 other[of h'] show ?thesis by (auto intro: well_formedI)
  qed
  show "\<exists>h' l' cs. copy_constructor h other = Some (Inr (h', l')) \<and> well_formed h' l' cs \<and>
       well_formed h' other bs"
  proof -
    from copy_constructor_dll[OF assms(2)] obtain h' l' cs where
      1: "copy_constructor h other = Some (Inr (h', l'))" "dll h' l' cs"
         "length h \<le> length h'" "\<forall>a<length h. h' ! a = h ! a"
      by blast
    with other'[of h'] show ?thesis by (auto intro: well_formedI)
  qed
  show "well_formed h (fst (move_constructor other)) bs"
    and "well_formed h (snd (move_constructor other)) []"
    using move_constructor_dll[OF assms(2)] by (auto intro: well_formedI)
  show "well_formed h (fst (swap l other)) bs" and "well_formed h (snd (swap l other)) as"
    using swap_dll[OF assms(1,2)] by (auto intro: well_formedI)
  show "\<exists>h' l' cs. operator_plus_assign h l other = Some (Inr (h', l')) \<and>
       operator_plus_member h l other = Some (Inr (h', l')) \<and> well_formed h' l' cs \<and>
       well_formed h' other bs"
  proof -
    from operator_plus_assign_dll[OF assms] obtain h' l' cs where
      1: "operator_plus_assign h l other = Some (Inr (h', l'))" "dll h' l' (as @ cs)"
         "length h \<le> length h'" "\<forall>x<length h. x \<notin> set as \<longrightarrow> h' ! x = h ! x"
      by blast
    with other[of h'] show ?thesis
      by (auto simp: operator_plus_member_def intro: well_formedI)
  qed
  show "\<exists>h' r cs. operator_plus h l other = Some (Inr (h', r)) \<and> well_formed h' r cs \<and>
       well_formed h' l as \<and> well_formed h' other bs"
  proof -
    from operator_plus_dll[OF assms(1,2)] obtain h' r cs where
      1: "operator_plus h l other = Some (Inr (h', r))" "dll h' r cs"
         "length h \<le> length h'" "\<forall>x<length h. h' ! x = h ! x"
      by blast
    with other'[of h'] this'[of h'] show ?thesis by (auto intro: well_formedI)
  qed
  show "operator_plus_assign h l l = (if as = [] then Some (Inr (h, l)) else None)"
    using assms(1) by (rule self_append)
qed

theorem operations_preserve_invariants_witness:
  "dll [\<lparr>item = 1::int, previous = None, next = Some 1\<rparr>,
        \<lparr>item = 2, previous = Some 0, next = None\<rparr>,
        \<lparr>item = 3, previous = None, next = Some 3\<rparr>,
        \<lparr>item = 4, previous = Some 2, next = None\<rparr>]
       \<lparr>front = Some 1, back = Some 0, nodes = 2\<rparr> [0, 1] \<and>
   dll [\<lparr>item = 1::int, previous = None, next = Some 1\<rparr>,
        \<lparr>item = 2, previous = Some 0, next = None\<rparr>,
        \<lparr>item = 3, previous = None, next = Some 3\<rparr>,
        \<lparr>item = 4, previous = Some 2, next = None\<rparr>]
       \<lparr>front = Some 3, back = Some 2, nodes = 2\<rparr> [2, 3] \<and>
   set [0, 1::nat] \<inter> set [2, 3] = {} \<and>
   invariants [\<lparr>item = 1::int, previous = None, next = Some 1\<rparr>,
        \<lparr>item = 2, previous = Some 0, next = None\<rparr>,
        \<lparr>item = 3, previous = None, next = Some 3\<rparr>,
        \<lparr>item = 4, previous = Some 2, next = None\<rparr>]
       \<lparr>front = Some 1, back = Some 0, nodes = 2\<rparr> [0, 1] \<and>
   (\<exists>y h' l'. pop_front (0::int)
        [\<lparr>item = 1::int, previous = None, next = Some 1\<rparr>,
         \<lparr>item = 2, previous = Some 0, next = None\<rparr>,
         \<lparr>item = 3, previous = None, next = Some 3\<rparr>,
         \<lparr>item = 4, previous = Some 2, next = None\<rparr>]
        \<lparr>front = Some 1, back = Some 0, nodes = 2\<rparr> = Inr (y, h', l') \<and>
      invariants h' l' [0])"
proof -
  let ?h = "[\<lparr>item = 1::int, previous = None, next = Some 1\<rparr>,
        \<lparr>item = 2, previous = Some 0, next = None\<rparr>,
        \<lparr>item = 3, previous = None, next = Some 3\<rparr>,
        \<lparr>item = 4, previous = Some 2, next = None\<rparr>]"
  let ?a = "\<lparr>front = Some 1, back = Some 0, nodes = 2\<rparr>"
  let ?b = "\<lparr>front = Some 3, back = Some 2, nodes = 2\<rparr>"
  have a: "dll ?h ?a [0, 1]" by (simp add: dll_def)
  have b: "dll ?h ?b [2, 3]" by (simp add: dll_def)
  have d: "set [0, 1::nat] \<inter> set [2, 3] = {}" by simp
  from operations_preserve_invariants[OF a b d, of _ 0]
  have "well_formed ?h ?a [0, 1]"
    and "\<exists>y h' l'. pop_front 0 ?h ?a = Inr (y, h', l') \<and> well_formed h' l' (butlast [0, 1])"
    by blast+
  then have "invariants ?h ?a [0, 1]"
    and "\<exists>y h' l'. pop_front 0 ?h ?a = Inr (y, h', l') \<and> invariants h' l' [0]"
    by (auto simp: well_formed_def)
  with a b d show ?thesis by blast
qed

end
